theory Spec2Isabelle
  imports Complex_Main "HOL-Library.AList" "HOL-Library.Multiset"
begin

section \<open>Strings\<close>

text \<open>
  File names, model identifiers and the text returned by the service are modelled as
  \<open>string\<close>. The content of the files the maintenance utility reads and writes, where
  the white space class of the regular expression and the encoding of the output matter,
  is a list of Unicode code points, as integers (\<open>ustring\<close>). The helpers below are the string methods
  the sources call: \<open>str.lower\<close> (on the ASCII letters), \<open>str.startswith\<close>,
  \<open>str.endswith\<close> and the substring test \<open>sub in s\<close>.
\<close>

type_synonym ustring = "int list"

definition points :: "string \<Rightarrow> ustring" where
  "points s = map of_char s"

definition lower_char :: "char \<Rightarrow> char" where
  "lower_char c =
     (let n = (of_char c :: nat) in if 65 \<le> n \<and> n \<le> 90 then char_of (n + 32) else c)"

definition lower :: "string \<Rightarrow> string" where
  "lower s = map lower_char s"

fun startswith :: "'a list \<Rightarrow> 'a list \<Rightarrow> bool" where
  "startswith s [] = True"
| "startswith [] (p # ps) = False"
| "startswith (c # cs) (p # ps) = (c = p \<and> startswith cs ps)"

definition endswith :: "'a list \<Rightarrow> 'a list \<Rightarrow> bool" where
  "endswith s suf = startswith (rev s) (rev suf)"

fun str_contains :: "'a list \<Rightarrow> 'a list \<Rightarrow> bool" where
  "str_contains sub [] = (sub = [])"
| "str_contains sub (c # cs) = (startswith (c # cs) sub \<or> str_contains sub cs)"

text \<open>
  \<open>s.find(c)\<close> and \<open>s.rfind(c)\<close> for a single character: the index of the first and
  of the last occurrence, \<open>-1\<close> when there is none.
\<close>

fun find_char :: "char \<Rightarrow> string \<Rightarrow> int" where
  "find_char c [] = - 1"
| "find_char c (x # xs) =
     (if x = c then 0 else (let r = find_char c xs in if r = - 1 then - 1 else r + 1))"

definition rfind_char :: "char \<Rightarrow> string \<Rightarrow> int" where
  "rfind_char c s =
     (let r = find_char c (rev s) in if r = - 1 then - 1 else int (length s) - 1 - r)"

text \<open>
  The slice \<open>xs[a:b]\<close>: a negative bound counts from the end, and both bounds are
  clamped to the sequence.
\<close>

definition clamp_index :: "nat \<Rightarrow> int \<Rightarrow> nat" where
  "clamp_index n i = (if i < 0 then nat (max 0 (int n + i)) else min n (nat i))"

definition slice :: "'a list \<Rightarrow> int \<Rightarrow> int \<Rightarrow> 'a list" where
  "slice xs a b =
     (let lo = clamp_index (length xs) a; hi = clamp_index (length xs) b
      in take (hi - lo) (drop lo xs))"

text \<open>
  \<open>os.path.splitext\<close> (a library function): the extension starts at the last dot of the
  path, provided that dot comes after the last separator and some character between the
  separator and the dot is not a dot; otherwise the extension is empty.
\<close>

definition splitext :: "string \<Rightarrow> string \<times> string" where
  "splitext p =
     (let sepIndex = rfind_char (CHR ''/'') p;
          dotIndex = rfind_char (CHR ''.'') p
      in if sepIndex < dotIndex \<and>
            list_ex (\<lambda>k. p ! k \<noteq> CHR ''.'') [nat (sepIndex + 1) ..< nat dotIndex]
         then (take (nat dotIndex) p, drop (nat dotIndex) p)
         else (p, []))"

section \<open>Cost estimator (main.py, calculate\_cost)\<close>

text \<open>
  Token counts are Python integers. Prices and costs are Python floats, and the
  arithmetic on them belongs to the language, not to this repository: the five float
  operations \<open>calculate_cost\<close> uses are parameters of the model. \<open>fl_div a b\<close> is the true
  division \<open>a / b\<close> of two integers, \<open>fl_lit\<close> the float a decimal literal denotes,
  \<open>fl_mul\<close> and \<open>fl_add\<close> the float product and sum, \<open>fl_round6 x\<close> is
  \<open>round(x, 6)\<close>.
\<close>

record 'f float_ops =
  fl_div :: "int \<Rightarrow> int \<Rightarrow> 'f"
  fl_lit :: "rat \<Rightarrow> 'f"
  fl_mul :: "'f \<Rightarrow> 'f \<Rightarrow> 'f"
  fl_add :: "'f \<Rightarrow> 'f \<Rightarrow> 'f"
  fl_round6 :: "'f \<Rightarrow> 'f"

record 'f cost_info =
  input_cost_usd :: 'f
  output_cost_usd :: 'f
  total_cost_usd :: 'f
  pricing_model :: string

text \<open>
  Lines 63 to 71: the bracket is chosen by the input token count alone. The prices are
  the decimal literals of the source.
\<close>

definition flash_prices :: "int \<Rightarrow> rat \<times> rat" where
  "flash_prices input_tokens =
     (if input_tokens \<le> 32000 then (0.05, 0.40)
      else if input_tokens \<le> 128000 then (0.075, 0.60)
      else (0.12, 0.96))"

text \<open>The table of the other models, in the dictionary's insertion order.\<close>

definition pricing :: "(string \<times> rat \<times> rat) list" where
  "pricing =
     [(''qwen-vl-max'', 2.8, 8.4),
      (''qwen-vl-plus'', 1.12, 2.8),
      (''qwen3-vl-plus'', 1.12, 2.8),
      (''qwen-vl-turbo'', 0.28, 0.84)]"

fun first_key_in :: "(string \<times> rat \<times> rat) list \<Rightarrow> string \<Rightarrow> string \<Rightarrow> string" where
  "first_key_in [] m dflt = dflt"
| "first_key_in ((k, _) # rest) m dflt =
     (if str_contains k m then k else first_key_in rest m dflt)"

definition price_of :: "string \<Rightarrow> rat \<times> rat" where
  "price_of k = (case map_of pricing k of Some p \<Rightarrow> p | None \<Rightarrow> (0, 0))"

definition calculate_cost :: "'f float_ops \<Rightarrow> int \<Rightarrow> int \<Rightarrow> string \<Rightarrow> 'f cost_info" where
  "calculate_cost fl input_tokens output_tokens model =
     (if str_contains ''qwen3-vl-flash'' (lower model) then
        (let (input_price, output_price) = flash_prices input_tokens;
             input_cost = fl_mul fl (fl_div fl input_tokens 1000000) (fl_lit fl input_price);
             output_cost = fl_mul fl (fl_div fl output_tokens 1000000) (fl_lit fl output_price);
             total_cost = fl_add fl input_cost output_cost
         in \<lparr>input_cost_usd = fl_round6 fl input_cost,
             output_cost_usd = fl_round6 fl output_cost,
             total_cost_usd = fl_round6 fl total_cost,
             pricing_model = ''qwen3-vl-flash-tiered''\<rparr>)
      else
        (let model_key = first_key_in pricing (lower model) ''qwen-vl-plus'';
             (input_cost_per_million, output_cost_per_million) = price_of model_key;
             input_cost =
               fl_mul fl (fl_div fl input_tokens 1000000) (fl_lit fl input_cost_per_million);
             output_cost =
               fl_mul fl (fl_div fl output_tokens 1000000) (fl_lit fl output_cost_per_million);
             total_cost = fl_add fl input_cost output_cost
         in \<lparr>input_cost_usd = fl_round6 fl input_cost,
             output_cost_usd = fl_round6 fl output_cost,
             total_cost_usd = fl_round6 fl total_cost,
             pricing_model = model_key\<rparr>))"

text \<open>
  The float expressions themselves, unevaluated: with these operations a cost is the
  expression the code computes it by.
\<close>

datatype float_expr =
    Div int int
  | Lit rat
  | Mul float_expr float_expr
  | Add float_expr float_expr
  | Round6 float_expr

definition as_written :: "float_expr float_ops" where
  "as_written = \<lparr>fl_div = Div, fl_lit = Lit, fl_mul = Mul, fl_add = Add, fl_round6 = Round6\<rparr>"

section \<open>JSON values, exceptions and directories\<close>

text \<open>
  A parsed JSON document, over the characters of its strings. A Python \<open>dict\<close> keeps
  its keys in insertion order, so an object is an association list. \<open>json.loads\<close> and
  \<open>json.dump\<close> belong to the Python library, not to this repository: they are
  parameters of the model, \<open>loads\<close> returning either the exception it raises or the
  parsed value.
\<close>

datatype 'c jvalue =
    JNull
  | JBool bool
  | JNum rat
  | JStr "'c list"
  | JArr "'c jvalue list"
  | JObj "('c list \<times> 'c jvalue) list"

type_synonym json = "char jvalue"

datatype exn =
    JSONDecodeError
  | TypeError
  | IndexError
  | FileNotFoundError
  | UnicodeEncodeError
  | PermissionError
  | OtherError

type_synonym loader = "string \<Rightarrow> exn + json"
type_synonym dumper = "json \<Rightarrow> string"

text \<open>
  A directory maps file names to file contents; \<open>os.listdir\<close> enumerates the names in
  some fixed order.
\<close>

type_synonym 'a directory = "(string \<times> 'a) list"
type_synonym dir = "string directory"

definition listdir :: "'a directory \<Rightarrow> string list" where
  "listdir d = map fst d"

section \<open>Maintenance utility (clean\_and\_format\_captions.py)\<close>

definition VIDEO_EXT :: string where
  "VIDEO_EXT = ''.mp4''"

definition JSON_SUFFIX :: string where
  "JSON_SUFFIX = ''_analysis.json''"

subsection \<open>fix\_json\_content\<close>

text \<open>
  The class \<open>\s\<close> of a \<open>str\<close> pattern: the code points Python counts as white space,
  which are tab to carriage return, the separators 28 to 31, space, next line (U+0085),
  no-break space (U+00A0), U+1680, U+2000 to U+200A, U+2028, U+2029, U+202F, U+205F and
  U+3000.
\<close>

definition is_space :: "int \<Rightarrow> bool" where
  "is_space n =
     ((9 \<le> n \<and> n \<le> 13) \<or> (28 \<le> n \<and> n \<le> 32) \<or> n = 0x85 \<or> n = 0xA0 \<or> n = 0x1680
      \<or> (0x2000 \<le> n \<and> n \<le> 0x200A) \<or> n = 0x2028 \<or> n = 0x2029 \<or> n = 0x202F
      \<or> n = 0x205F \<or> n = 0x3000)"

definition is_comma :: "int \<Rightarrow> bool" where
  "is_comma n = (n = of_char (CHR '',''))"

definition is_closer :: "int \<Rightarrow> bool" where
  "is_closer n = (n = of_char (CHR ''}'') \<or> n = of_char (CHR '']''))"

text \<open>
  \<open>re.sub(r',(\s*[}\]])', r'\1', content)\<close>: the text is scanned from the left; where
  the pattern matches (a comma, then the longest run of white space, then a closing brace
  or bracket) the match is replaced by its group 1, the white space and the closer, and the
  scan resumes after the match; any other character is copied.
\<close>

function fix_json_content :: "ustring \<Rightarrow> ustring" where
  "fix_json_content [] = []"
| "fix_json_content (c # cs) =
     (if is_comma c then
        (case dropWhile is_space cs of
           [] \<Rightarrow> c # fix_json_content cs
         | b # rest \<Rightarrow>
             if is_closer b then takeWhile is_space cs @ b # fix_json_content rest
             else c # fix_json_content cs)
      else c # fix_json_content cs)"
  by pat_completeness auto
termination
proof (relation "measure length")
  fix c :: int and cs :: ustring and b :: int and rest :: ustring
  assume "dropWhile is_space cs = b # rest"
  then have "length (b # rest) \<le> length cs"
    by (metis length_dropWhile_le)
  then show "(rest, c # cs) \<in> measure length" by simp
qed auto

text \<open>
  The repair in the words of the specification, on the code points themselves: a comma
  (44) is removed exactly when it is followed by optional white space and a closing brace
  (125) or bracket (93); every other character stays.
\<close>

definition whitespace :: "int list" where
  "whitespace =
     [9, 10, 11, 12, 13, 28, 29, 30, 31, 32, 133, 160, 5760,
      8192, 8193, 8194, 8195, 8196, 8197, 8198, 8199, 8200, 8201, 8202,
      8232, 8233, 8239, 8287, 12288]"

definition before_closer :: "ustring \<Rightarrow> bool" where
  "before_closer cs =
     (case dropWhile (\<lambda>c. c \<in> set whitespace) cs of
        [] \<Rightarrow> False
      | b # _ \<Rightarrow> b = 125 \<or> b = 93)"

fun remove_trailing_commas :: "ustring \<Rightarrow> ustring" where
  "remove_trailing_commas [] = []"
| "remove_trailing_commas (c # cs) =
     (if c = 44 \<and> before_closer cs then remove_trailing_commas cs
      else c # remove_trailing_commas cs)"

subsection \<open>clean\_orphans\<close>

text \<open>\<open>s.replace(old, '')\<close> for a non-empty \<open>old\<close>: every occurrence, found from the left.\<close>

function str_remove :: "string \<Rightarrow> string \<Rightarrow> string" where
  "str_remove old [] = []"
| "str_remove old (c # cs) =
     (if old \<noteq> [] \<and> startswith (c # cs) old then str_remove old (drop (length old) (c # cs))
      else c # str_remove old cs)"
  by pat_completeness auto
termination
  by (relation "measure (\<lambda>(old, s). length s)") (auto simp: neq_Nil_conv)

datatype orphan_msg = Deleted_orphan string | Error_deleting string

record 'a orphan_state =
  captions :: "'a directory"
  deleted_count :: nat
  printed :: "orphan_msg list"

text \<open>
  One iteration of the loop of lines 30 to 42. \<open>removable\<close> tells whether \<open>os.remove\<close>
  succeeds on a name (it raises \<open>OSError\<close> otherwise); \<open>input_names\<close> are the entries of
  the input directory, which the loop never changes.
\<close>

definition orphan_step ::
  "(string \<Rightarrow> bool) \<Rightarrow> string list \<Rightarrow> string \<Rightarrow> 'a orphan_state \<Rightarrow> 'a orphan_state" where
  "orphan_step removable input_names filename st =
     (if endswith filename JSON_SUFFIX then
        (let base_name = str_remove JSON_SUFFIX filename;
             video_path = base_name @ VIDEO_EXT
         in if video_path \<notin> set input_names then
              (if removable filename then
                 st\<lparr>captions := AList.delete filename (captions st),
                    deleted_count := deleted_count st + 1,
                    printed := printed st @ [Deleted_orphan filename]\<rparr>
               else st\<lparr>printed := printed st @ [Error_deleting filename]\<rparr>)
            else st)
      else st)"

text \<open>A directory that does not exist is \<open>None\<close>; then the function prints and returns.\<close>

definition clean_orphans ::
  "(string \<Rightarrow> bool) \<Rightarrow> 'a directory option \<Rightarrow> string list option \<Rightarrow> 'a orphan_state option" where
  "clean_orphans removable captions_dir input_dir =
     (case captions_dir of
        None \<Rightarrow> None
      | Some c \<Rightarrow>
          (case input_dir of
             None \<Rightarrow> None
           | Some i \<Rightarrow>
               Some (fold (orphan_step removable i) (listdir c)
                      \<lparr>captions = c, deleted_count = 0, printed = []\<rparr>)))"

subsection \<open>process\_files\<close>

text \<open>
  The files are read as UTF-8 text and parsed by \<open>json.loads\<close>, which gives values over
  code points. Writing a value back is \<open>open(file_path, 'w', encoding='utf-8')\<close>
  followed by \<open>json.dump(data, f, indent=2, ensure_ascii=False)\<close>, one parameter of the
  model with three outcomes: the file could not be opened and is as before; the file was
  opened, which empties it, and the output written in full; or the dump raised on the
  way (a string with a lone surrogate cannot be encoded) and the file holds what was
  written until then.
\<close>

type_synonym parser = "ustring \<Rightarrow> exn + int jvalue"

datatype write_result = Written ustring | Broke ustring exn | Refused exn

type_synonym writer = "string \<Rightarrow> int jvalue \<Rightarrow> write_result"

definition keys_to_remove :: "ustring list" where
  "keys_to_remove = [points ''usage_metadata'', points ''file_metadata'']"

text \<open>
  \<open>key in data\<close> and \<open>del data[key]\<close> on whatever \<open>json.loads\<close> returned: membership
  is defined on a dict (its keys), a list (its elements) and a string (substrings) and
  raises \<open>TypeError\<close> on a number, a boolean and \<open>None\<close>; deleting a string key is
  defined on a dict only.
\<close>

fun key_in :: "'c list \<Rightarrow> 'c jvalue \<Rightarrow> exn + bool" where
  "key_in key (JObj kvs) = Inr (key \<in> set (map fst kvs))"
| "key_in key (JArr xs) = Inr (JStr key \<in> set xs)"
| "key_in key (JStr s) = Inr (str_contains key s)"
| "key_in key _ = Inl TypeError"

fun del_key :: "'c list \<Rightarrow> 'c jvalue \<Rightarrow> exn + 'c jvalue" where
  "del_key key (JObj kvs) = Inr (JObj (AList.delete key kvs))"
| "del_key key _ = Inl TypeError"

fun remove_keys :: "'c list list \<Rightarrow> 'c jvalue \<Rightarrow> exn + 'c jvalue" where
  "remove_keys [] data = Inr data"
| "remove_keys (key # keys) data =
     (case key_in key data of
        Inl e \<Rightarrow> Inl e
      | Inr False \<Rightarrow> remove_keys keys data
      | Inr True \<Rightarrow>
          (case del_key key data of
             Inl e \<Rightarrow> Inl e
           | Inr data' \<Rightarrow> remove_keys keys data'))"

datatype format_msg = Failed_to_fix string | Unexpected_error string exn

record format_state =
  files :: "ustring directory"
  processed_count :: nat
  fixed_count :: nat
  error_count :: nat
  messages :: "format_msg list"

text \<open>The handler of line 98.\<close>

definition unexpected :: "string \<Rightarrow> exn \<Rightarrow> format_state \<Rightarrow> format_state" where
  "unexpected filename e st =
     st\<lparr>error_count := error_count st + 1,
        messages := messages st @ [Unexpected_error filename e]\<rparr>"

text \<open>Lines 85 to 96: remove the metadata, write the file back, count it.\<close>

definition strip_and_write :: "writer \<Rightarrow> string \<Rightarrow> int jvalue \<Rightarrow> format_state \<Rightarrow> format_state" where
  "strip_and_write dumps filename data st =
     (case remove_keys keys_to_remove data of
        Inl e \<Rightarrow> unexpected filename e st
      | Inr data' \<Rightarrow>
          (case dumps filename data' of
             Written out \<Rightarrow>
               st\<lparr>files := AList.update filename out (files st),
                  processed_count := processed_count st + 1\<rparr>
           | Broke out e \<Rightarrow>
               unexpected filename e (st\<lparr>files := AList.update filename out (files st)\<rparr>)
           | Refused e \<Rightarrow> unexpected filename e st))"

text \<open>The body of the loop of line 61, for one name of the listing.\<close>

definition process_file ::
  "parser \<Rightarrow> writer \<Rightarrow> string \<Rightarrow> format_state \<Rightarrow> format_state" where
  "process_file loads dumps filename st =
     (if \<not> endswith filename JSON_SUFFIX then st
      else
        (case map_of (files st) filename of
           None \<Rightarrow> unexpected filename FileNotFoundError st
         | Some content \<Rightarrow>
             (case loads content of
                Inr data \<Rightarrow> strip_and_write dumps filename data st
              | Inl e \<Rightarrow>
                  if e = JSONDecodeError then
                    (case loads (fix_json_content content) of
                       Inr data \<Rightarrow>
                         strip_and_write dumps filename data
                           (st\<lparr>fixed_count := fixed_count st + 1\<rparr>)
                     | Inl e' \<Rightarrow>
                         if e' = JSONDecodeError then
                           st\<lparr>error_count := error_count st + 1,
                              messages := messages st @ [Failed_to_fix filename]\<rparr>
                         else unexpected filename e' st)
                  else unexpected filename e st)))"

definition process_files :: "parser \<Rightarrow> writer \<Rightarrow> ustring directory option \<Rightarrow> format_state option" where
  "process_files loads dumps captions_dir =
     (case captions_dir of
        None \<Rightarrow> None
      | Some d \<Rightarrow>
          Some (fold (process_file loads dumps) (listdir d)
                 \<lparr>files = d, processed_count = 0, fixed_count = 0, error_count = 0,
                  messages = []\<rparr>))"

text \<open>
  What the utility obtains from a file's content: the value parsed directly, or the value
  parsed after the repair when the first attempt raised \<open>JSONDecodeError\<close>.
\<close>

definition parsed :: "parser \<Rightarrow> ustring \<Rightarrow> int jvalue option" where
  "parsed loads content =
     (case loads content of
        Inr data \<Rightarrow> Some data
      | Inl e \<Rightarrow>
          if e = JSONDecodeError then
            (case loads (fix_json_content content) of
               Inr data \<Rightarrow> Some data
             | Inl _ \<Rightarrow> None)
          else None)"

section \<open>Work selector (main.py, get\_video\_files)\<close>

text \<open>Line 43: the names of the input directory that count as videos.\<close>

definition is_video :: "string \<Rightarrow> bool" where
  "is_video f =
     (endswith (lower f) ''.mp4'' \<or> endswith (lower f) ''.mov'' \<or> endswith (lower f) ''.avi'')"

text \<open>
  A directory that does not exist is \<open>None\<close>; a missing output directory is created
  empty. \<open>shuffled\<close> is the rearrangement \<open>random.shuffle\<close> makes on this call.
\<close>

definition get_video_files ::
  "(string list \<Rightarrow> string list) \<Rightarrow> string list option \<Rightarrow> string list option \<Rightarrow> int \<Rightarrow> bool
     \<Rightarrow> string list" where
  "get_video_files shuffled input_dir output_dir max_items shuffle =
     (case input_dir of
        None \<Rightarrow> []
      | Some names \<Rightarrow>
          (let all_videos = filter is_video names;
               out_names = (case output_dir of None \<Rightarrow> [] | Some ns \<Rightarrow> ns);
               processed_videos =
                 map (\<lambda>f. fst (splitext f)) (filter (\<lambda>f. endswith f ''.json'') out_names);
               videos_to_process =
                 filter (\<lambda>v. fst (splitext v) \<notin> set processed_videos) all_videos;
               ordered = (if shuffle then shuffled videos_to_process else videos_to_process)
           in slice ordered 0 max_items))"

text \<open>
  The input item an artifact of the maintenance utility belongs to, as the work selector
  understands input items: a video of the input directory whose name without extension
  is the given base identifier.
\<close>

definition has_input_item :: "string list \<Rightarrow> string \<Rightarrow> bool" where
  "has_input_item input_names base =
     list_ex (\<lambda>v. is_video v \<and> fst (splitext v) = base) input_names"

text \<open>An \<open>os.remove\<close> that always succeeds.\<close>

definition remove_succeeds :: "string \<Rightarrow> bool" where
  "remove_succeeds f = True"

section \<open>Response normalisation and the result loop (main.py, main)\<close>

subsection \<open>Lines 334 to 350: from the raw text to the caption data\<close>

definition strip_fence :: "string \<Rightarrow> string" where
  "strip_fence result =
     (if startswith result ''```json'' then slice result 7 (- 3)
      else if startswith result ''```'' then slice result 3 (- 3)
      else result)"

definition error_envelope :: "string \<Rightarrow> json" where
  "error_envelope result =
     JObj [(''caption'', JStr result), (''error'', JStr ''JSON parse failed'')]"

text \<open>The body of the inner \<open>try\<close>; whatever \<open>json.loads\<close> raises leaves it.\<close>

definition find_json_object :: "loader \<Rightarrow> string \<Rightarrow> exn + json" where
  "find_json_object loads result =
     (let start = find_char (CHR ''{'') result;
          stop = rfind_char (CHR ''}'') result
      in if start \<noteq> - 1 \<and> stop \<noteq> - 1 then loads (slice result start (stop + 1))
         else Inr (error_envelope result))"

text \<open>The bare \<open>except\<close> turns every exception of the \<open>try\<close> into the envelope.\<close>

definition normalizer :: "loader \<Rightarrow> string \<Rightarrow> exn + json" where
  "normalizer loads raw =
     (let result = strip_fence raw
      in case find_json_object loads result of
           Inr caption_data \<Rightarrow> Inr caption_data
         | Inl e \<Rightarrow> Inr (error_envelope result))"

text \<open>
  What the library parser guarantees on the texts the normaliser hands to it, which are
  empty or begin with an opening brace: if it returns, it returns an object.
\<close>

definition objects_only :: "loader \<Rightarrow> bool" where
  "objects_only loads =
     (\<forall>s v. loads s = Inr v \<longrightarrow> (s = [] \<or> hd s = CHR ''{'') \<longrightarrow> (\<exists>kvs. v = JObj kvs))"

subsection \<open>Lines 352 to 356: the metadata blocks\<close>

type_synonym metadata = "(string \<times> json) list"

definition get_or_empty :: "metadata \<Rightarrow> string \<Rightarrow> json" where
  "get_or_empty metadata key = (case map_of metadata key of Some v \<Rightarrow> v | None \<Rightarrow> JObj [])"

text \<open>
  \<open>{**caption_data, "usage_metadata": ..., "file_metadata": ...}\<close>: unpacking anything
  but a dict raises \<open>TypeError\<close>; a key already present keeps its place and takes the new
  value.
\<close>

definition merge_metadata :: "json \<Rightarrow> metadata \<Rightarrow> exn + json" where
  "merge_metadata caption_data metadata =
     (case caption_data of
        JObj kvs \<Rightarrow>
          Inr (JObj (AList.update ''file_metadata'' (get_or_empty metadata ''file_metadata'')
                      (AList.update ''usage_metadata'' (get_or_empty metadata ''usage_metadata'')
                         kvs)))
      | _ \<Rightarrow> Inl TypeError)"

subsection \<open>Lines 326 to 366: the loop over the completed futures\<close>

text \<open>
  What \<open>future.result()\<close> gives for one video: the exception the worker raised, or the
  pair \<open>(result, metadata)\<close> of \<open>process_video\<close>, whose first component is \<open>None\<close>
  or the raw text (the pair \<open>(None, None)\<close> is \<open>(None, [])\<close> here: the metadata is
  not read when the result is \<open>None\<close>).
\<close>

type_synonym worker_result = "exn + string option \<times> metadata"

datatype event =
    Wrote string string
  | Log_success string
  | Log_failed string
  | Log_error string exn
  | Slept rat

record run_state =
  out_dir :: dir
  trace :: "event list"

definition output_name :: "string \<Rightarrow> string" where
  "output_name video_file = fst (splitext video_file) @ ''.json''"

definition emit :: "event \<Rightarrow> run_state \<Rightarrow> run_state" where
  "emit e st = st\<lparr>trace := trace st @ [e]\<rparr>"

text \<open>Lines 333 to 362, the body of the outer \<open>try\<close> with its handler.\<close>

definition handle_outcome ::
  "loader \<Rightarrow> dumper \<Rightarrow> string \<Rightarrow> worker_result \<Rightarrow> run_state \<Rightarrow> run_state" where
  "handle_outcome loads dumps video_file r st =
     (case r of
        Inl e \<Rightarrow> emit (Log_error video_file e) st
      | Inr (None, metadata) \<Rightarrow> emit (Log_failed video_file) st
      | Inr (Some result, metadata) \<Rightarrow>
          if result = [] then emit (Log_failed video_file) st
          else
            (case normalizer loads result of
               Inl e \<Rightarrow> emit (Log_error video_file e) st
             | Inr caption_data \<Rightarrow>
                 (case merge_metadata caption_data metadata of
                    Inl e \<Rightarrow> emit (Log_error video_file e) st
                  | Inr output_data \<Rightarrow>
                      emit (Log_success video_file)
                        (emit (Wrote video_file (output_name video_file))
                           (st\<lparr>out_dir :=
                                 AList.update (output_name video_file) (dumps output_data)
                                   (out_dir st)\<rparr>)))))"

text \<open>One iteration: the outcome, then \<open>time.sleep(request_delay)\<close> of line 366.\<close>

definition handle_result ::
  "loader \<Rightarrow> dumper \<Rightarrow> rat \<Rightarrow> string \<times> worker_result \<Rightarrow> run_state \<Rightarrow> run_state" where
  "handle_result loads dumps request_delay item st =
     emit (Slept request_delay) (handle_outcome loads dumps (fst item) (snd item) st)"

definition main_loop ::
  "loader \<Rightarrow> dumper \<Rightarrow> rat \<Rightarrow> (string \<times> worker_result) list \<Rightarrow> run_state \<Rightarrow> run_state" where
  "main_loop loads dumps request_delay completed_futures st =
     fold (handle_result loads dumps request_delay) completed_futures st"

fun is_sleep :: "event \<Rightarrow> bool" where
  "is_sleep (Slept d) = True"
| "is_sleep _ = False"

fun event_file :: "event \<Rightarrow> string" where
  "event_file (Wrote f n) = f"
| "event_file (Log_success f) = f"
| "event_file (Log_failed f) = f"
| "event_file (Log_error f e) = f"
| "event_file (Slept d) = []"

definition wrote :: "string \<Rightarrow> run_state \<Rightarrow> bool" where
  "wrote video_file st = (Wrote video_file (output_name video_file) \<in> set (trace st))"

text \<open>\<open>if result:\<close> on what the worker returned.\<close>

fun truthy :: "worker_result \<Rightarrow> bool" where
  "truthy (Inr (Some result, metadata)) = (result \<noteq> [])"
| "truthy _ = False"

subsection \<open>One run of the dispatcher\<close>

text \<open>
  Lines 285 to 366. \<open>worker\<close> is what the pool returns for each selected video and
  \<open>completed\<close> the order in which \<open>as_completed\<close> yields the futures. With nothing to
  do the run returns before the loop.
\<close>

definition dispatch ::
  "(string list \<Rightarrow> string list) \<Rightarrow> (string list \<Rightarrow> string list) \<Rightarrow> loader \<Rightarrow> dumper
     \<Rightarrow> (string \<Rightarrow> worker_result) \<Rightarrow> rat \<Rightarrow> string list option \<Rightarrow> int \<Rightarrow> bool \<Rightarrow> dir
     \<Rightarrow> run_state" where
  "dispatch shuffled completed loads dumps worker request_delay input_dir max_items shuffle out =
     (let video_files = get_video_files shuffled input_dir (Some (listdir out)) max_items shuffle
      in if video_files = [] then \<lparr>out_dir = out, trace = []\<rparr>
         else main_loop loads dumps request_delay
                (map (\<lambda>vf. (vf, worker vf)) (completed video_files))
                \<lparr>out_dir = out, trace = []\<rparr>)"

section \<open>Rate admission (main.py, wait\_for\_rate\_limits)\<close>

text \<open>
  The deque \<open>request_timestamps\<close> is a list with its front at the head; \<open>time.time()\<close>
  is an exact number of seconds.
\<close>

text \<open>Lines 303 and 304: pop from the left while the front is older than 60 seconds.\<close>

fun evict :: "rat \<Rightarrow> rat list \<Rightarrow> rat list" where
  "evict current_time [] = []"
| "evict current_time (t # ts) =
     (if current_time - t > 60 then evict current_time ts else t # ts)"

text \<open>
  The first block under \<open>rpm_lock\<close> (lines 301 to 306) with line 308: the window after
  eviction and the time to wait. Reading \<open>request_timestamps[0]\<close> of an empty deque
  raises \<open>IndexError\<close>.
\<close>

definition check_block :: "int \<Rightarrow> rat \<Rightarrow> rat list \<Rightarrow> exn + rat list \<times> rat" where
  "check_block max_rpm current_time request_timestamps =
     (let ts = evict current_time request_timestamps
      in if max_rpm \<le> int (length ts) then
           (case ts of
              [] \<Rightarrow> Inl IndexError
            | t0 # _ \<Rightarrow> Inr (ts, max (max 0 (t0 + 60 - current_time)) 0))
         else Inr (ts, max 0 0))"

text \<open>The second block under \<open>rpm_lock\<close> (lines 313 and 314).\<close>

definition append_block :: "rat \<Rightarrow> rat list \<Rightarrow> rat list" where
  "append_block now request_timestamps = request_timestamps @ [now]"

subsection \<open>Several workers\<close>

text \<open>
  With a pool of workers the two locked blocks of different calls interleave. A schedule
  is the sequence of blocks in the order in which they take the lock, each with the
  worker that runs it and the clock it reads. A worker that has run its first block
  sleeps until its wake-up time and then runs its second block. \<open>None\<close> is a schedule
  that cannot happen: a clock running backwards, a second block without a first or
  before the sleep is over, or a call that raised.
\<close>

datatype action = Check nat rat | Append nat rat

record limiter =
  request_timestamps :: "rat list"
  sleeping :: "(nat \<times> rat) list"
  clock :: rat
  admitted :: "rat list"

fun action_time :: "action \<Rightarrow> rat" where
  "action_time (Check w t) = t"
| "action_time (Append w t) = t"

fun step :: "int \<Rightarrow> action \<Rightarrow> limiter \<Rightarrow> limiter option" where
  "step max_rpm (Check w now) s =
     (if now < clock s \<or> w \<in> set (map fst (sleeping s)) then None
      else
        (case check_block max_rpm now (request_timestamps s) of
           Inl e \<Rightarrow> None
         | Inr (ts, wait_time) \<Rightarrow>
             Some (s\<lparr>request_timestamps := ts,
                     sleeping := (w, now + wait_time) # sleeping s,
                     clock := now\<rparr>)))"
| "step max_rpm (Append w now) s =
     (if now < clock s then None
      else
        (case map_of (sleeping s) w of
           None \<Rightarrow> None
         | Some wake \<Rightarrow>
             if now < wake then None
             else
               Some (s\<lparr>request_timestamps := append_block now (request_timestamps s),
                       sleeping := AList.delete w (sleeping s),
                       clock := now,
                       admitted := admitted s @ [now]\<rparr>)))"

fun run :: "int \<Rightarrow> action list \<Rightarrow> limiter \<Rightarrow> limiter option" where
  "run max_rpm [] s = Some s"
| "run max_rpm (a # as) s =
     (case step max_rpm a s of None \<Rightarrow> None | Some s' \<Rightarrow> run max_rpm as s')"

definition fresh :: limiter where
  "fresh = \<lparr>request_timestamps = [], sleeping = [], clock = 0, admitted = []\<rparr>"

text \<open>The admissions recorded in the 60 seconds that start at \<open>T\<close>.\<close>

definition admissions_in :: "rat \<Rightarrow> rat list \<Rightarrow> nat" where
  "admissions_in T stamps = length (filter (\<lambda>t. T \<le> t \<and> t < T + 60) stamps)"

subsection \<open>A pool of one worker\<close>

text \<open>
  With \<open>concurrency = 1\<close>, the default, the pool has a single worker thread, which
  runs \<open>submit_with_rate_limit_check\<close> for one video after the other (lines 316 to 321):
  the first locked block, the sleep for the time it computed, the second locked block,
  then \<open>process_video\<close>, which takes the given time. No other thread touches the window.
  The result is the list of the times at which the worker begins and finishes each item.
  A call that raises ends the item at once.
\<close>

fun worker_loop :: "int \<Rightarrow> rat list \<Rightarrow> rat \<Rightarrow> rat list \<Rightarrow> (rat \<times> rat) list" where
  "worker_loop max_rpm [] now window = []"
| "worker_loop max_rpm (d # ds) now window =
     (case check_block max_rpm now window of
        Inl e \<Rightarrow> (now, now) # worker_loop max_rpm ds now window
      | Inr (ts, wait_time) \<Rightarrow>
          (let admitted_at = now + wait_time;
               finish = admitted_at + d
           in (now, finish) # worker_loop max_rpm ds finish (append_block admitted_at ts)))"

section \<open>Notions used in the statements\<close>

text \<open>
  A rearrangement of a list (\<open>random.shuffle\<close>, the order of \<open>as_completed\<close>) keeps
  its elements with their multiplicities.
\<close>

definition rearranges :: "(string list \<Rightarrow> string list) \<Rightarrow> bool" where
  "rearranges f = (\<forall>xs. mset (f xs) = mset xs)"

text \<open>
  Lines 43 to 50 of \<open>get_video_files\<close>: the videos of the input directory whose name
  without extension is not the name without extension of a \<open>.json\<close> file of the output
  directory.
\<close>

definition eligible :: "string list \<Rightarrow> string list \<Rightarrow> string list" where
  "eligible names out =
     filter (\<lambda>v. fst (splitext v) \<notin>
                  set (map (\<lambda>f. fst (splitext f)) (filter (\<lambda>f. endswith f ''.json'') out)))
       (filter is_video names)"

text \<open>
  A pacing delay \<open>D\<close> holds on the time line of a worker when every item begins at
  least \<open>D\<close> after the previous one finished.
\<close>

fun paced :: "rat \<Rightarrow> (rat \<times> rat) list \<Rightarrow> bool" where
  "paced D [] = True"
| "paced D [x] = True"
| "paced D ((b1, f1) # (b2, f2) # rest) = (f1 + D \<le> b2 \<and> paced D ((b2, f2) # rest))"

text \<open>
  The content of a file after \<open>process_files\<close> has visited it: unchanged when nothing
  could be parsed, the metadata could not be removed or the file could not be opened for
  writing, and what the dump wrote otherwise.
\<close>

definition rewritten :: "parser \<Rightarrow> writer \<Rightarrow> string \<Rightarrow> ustring \<Rightarrow> ustring" where
  "rewritten loads dumps filename content =
     (case parsed loads content of
        None \<Rightarrow> content
      | Some data \<Rightarrow>
          (case remove_keys keys_to_remove data of
             Inl _ \<Rightarrow> content
           | Inr data' \<Rightarrow>
               (case dumps filename data' of
                  Written out \<Rightarrow> out
                | Broke out e \<Rightarrow> out
                | Refused e \<Rightarrow> content)))"

text \<open>Lines 31 to 35: the artifact names for which \<open>clean_orphans\<close> finds no video.\<close>

definition is_orphan :: "string list \<Rightarrow> string \<Rightarrow> bool" where
  "is_orphan input_names filename =
     (endswith filename JSON_SUFFIX \<and>
      str_remove JSON_SUFFIX filename @ VIDEO_EXT \<notin> set input_names)"

section \<open>Sample data\<close>

text \<open>
  A small parser standing in for \<open>json.loads\<close> on the texts of the service used in the
  examples below, and a serialiser for them that prints the keys of an object only.
\<close>

definition sample_loads :: loader where
  "sample_loads s =
     (if s = ''{\"a\": 1}'' then Inr (JObj [(''a'', JNum 1)])
      else Inl JSONDecodeError)"

fun sample_dumps :: dumper where
  "sample_dumps (JObj kvs) = ''{'' @ concat (map (\<lambda>e. fst e @ '';'') kvs) @ ''}''"
| "sample_dumps _ = ''?''"

text \<open>
  Three artifact texts. The first has trailing commas before a bracket and before a
  brace, with a space, a line feed and a tab in between; the second is the first after
  the repair; the third holds the escape of a lone surrogate (92 is the backslash), so
  that it parses to a string that cannot be encoded.
\<close>

definition trailing_text :: ustring where
  "trailing_text = points ''{\"a\": [\"b\", ],'' @ [10, 9] @ points ''}''"

definition repaired_text :: ustring where
  "repaired_text = points ''{\"a\": [\"b\" ]'' @ [10, 9] @ points ''}''"

definition surrogate_text :: ustring where
  "surrogate_text =
     points ''{\"caption\": \"'' @ [92] @ points ''ud800\", \"usage_metadata\": {}}''"

definition metadata_text :: ustring where
  "metadata_text = points ''{\"caption\": \"x\", \"usage_metadata\": {}, \"file_metadata\": {}}''"

text \<open>A parser standing in for \<open>json.loads\<close> on these texts.\<close>

definition sample_parse :: parser where
  "sample_parse s =
     (if s = repaired_text then Inr (JObj [(points ''a'', JArr [JStr (points ''b'')])])
      else if s = metadata_text then
        Inr (JObj [(points ''caption'', JStr (points ''x'')),
                   (points ''usage_metadata'', JObj []),
                   (points ''file_metadata'', JObj [])])
      else if s = surrogate_text then
        Inr (JObj [(points ''caption'', JStr [0xD800]), (points ''usage_metadata'', JObj [])])
      else Inl JSONDecodeError)"

text \<open>
  A writer standing in for \<open>open\<close> and \<open>json.dump\<close> with \<open>indent=2\<close> and
  \<open>ensure_ascii=False\<close>. It lays an object out as the library does, one member per
  line, a string value between quotes and any other value abbreviated to three dots. A
  string value with a surrogate cannot be encoded: the dump raises there, and the file
  holds what was written before.
\<close>

definition is_surrogate :: "int \<Rightarrow> bool" where
  "is_surrogate n = (0xD800 \<le> n \<and> n \<le> 0xDFFF)"

fun dump_members :: "(ustring \<times> int jvalue) list \<Rightarrow> ustring \<Rightarrow> write_result" where
  "dump_members [] written = Written (written @ [10] @ points ''}'')"
| "dump_members ((k, v) # rest) written =
     (let written' = written @ [10] @ points ''  \"'' @ k @ points ''\": '';
          sep = (if rest = [] then [] else points '','')
      in case v of
           JStr s \<Rightarrow>
             if list_ex is_surrogate s then Broke written' UnicodeEncodeError
             else dump_members rest (written' @ points ''\"'' @ s @ points ''\"'' @ sep)
         | _ \<Rightarrow> dump_members rest (written' @ points ''...'' @ sep))"

definition sample_dump :: writer where
  "sample_dump filename data =
     (case data of
        JObj [] \<Rightarrow> Written (points ''{}'')
      | JObj kvs \<Rightarrow> dump_members kvs (points ''{'')
      | _ \<Rightarrow> Written (points ''...''))"

definition sample_captions :: "ustring directory" where
  "sample_captions =
     [(''x_analysis.json'', trailing_text),
      (''y_analysis.json'', points ''{oops''),
      (''z_analysis.json'', metadata_text),
      (''notes.txt'', points ''hello'')]"

definition surrogate_captions :: "ustring directory" where
  "surrogate_captions = [(''s_analysis.json'', surrogate_text)]"

definition sample_orphans :: dir where
  "sample_orphans =
     [(''a_analysis.json'', ''{}''), (''b_analysis.json'', ''{}''), (''readme.md'', ''text'')]"

text \<open>A worker for which every call succeeds, and a batch with one result of each kind.\<close>

definition sample_worker :: "string \<Rightarrow> worker_result" where
  "sample_worker video_file = Inr (Some ''{\"a\": 1}'', [])"

text \<open>A worker that returns the empty text for \<open>a.mp4\<close> and a caption for the rest.\<close>

definition same_name_worker :: "string \<Rightarrow> worker_result" where
  "same_name_worker video_file =
     (if video_file = ''a.mp4'' then Inr (Some [], []) else Inr (Some ''{\"a\": 1}'', []))"

definition sample_batch :: "(string \<times> worker_result) list" where
  "sample_batch =
     [(''a.mp4'', Inr (Some ''{\"a\": 1}'', [])),
      (''b.mp4'', Inr (Some [], [])),
      (''c.mp4'', Inr (None, [])),
      (''d.mp4'', Inl OtherError)]"

section \<open>Properties of the cost estimator\<close>

lemma flash_prices_low: "t \<le> 32000 \<Longrightarrow> flash_prices t = (0.05, 0.40)"
  by (simp add: flash_prices_def)

lemma flash_prices_mid:
  "32000 < t \<Longrightarrow> t \<le> 128000 \<Longrightarrow> flash_prices t = (0.075, 0.60)"
  by (simp add: flash_prices_def)

lemma flash_prices_top: "128000 < t \<Longrightarrow> flash_prices t = (0.12, 0.96)"
  by (simp add: flash_prices_def)

lemma calculate_cost_flash:
  assumes "str_contains ''qwen3-vl-flash'' (lower model)"
    and "flash_prices i = (ip, op)"
  shows "input_cost_usd (calculate_cost fl i out model) =
           fl_round6 fl (fl_mul fl (fl_div fl i 1000000) (fl_lit fl ip))"
    and "output_cost_usd (calculate_cost fl i out model) =
           fl_round6 fl (fl_mul fl (fl_div fl out 1000000) (fl_lit fl op))"
    and "total_cost_usd (calculate_cost fl i out model) =
           fl_round6 fl (fl_add fl (fl_mul fl (fl_div fl i 1000000) (fl_lit fl ip))
                                   (fl_mul fl (fl_div fl out 1000000) (fl_lit fl op)))"
    and "pricing_model (calculate_cost fl i out model) = ''qwen3-vl-flash-tiered''"
  using assms by (simp_all add: calculate_cost_def Let_def)

text \<open>
  Claim C5. For every model identifier that contains the tiered model's name (compared
  in lower case), all token counts and whatever the float arithmetic is, the bracket is
  selected by the input token count with inclusive upper bounds: up to 32000 the input
  and the output cost are computed from the rates 0.05 and 0.40 per million, from 32001
  up to 128000 from 0.075 and 0.60, above 128000 from 0.12 and 0.96, and the total is
  the rounded sum of the two unrounded costs. In particular 32000 is priced in the lowest
  bracket, 32001 and 128000 in the middle one and 128001 in the top one.
\<close>

theorem tiered_pricing_boundary:
  assumes m: "str_contains ''qwen3-vl-flash'' (lower model)"
  shows "(i \<le> 32000 \<longrightarrow>
            input_cost_usd (calculate_cost fl i out model) =
              fl_round6 fl (fl_mul fl (fl_div fl i 1000000) (fl_lit fl 0.05)) \<and>
            output_cost_usd (calculate_cost fl i out model) =
              fl_round6 fl (fl_mul fl (fl_div fl out 1000000) (fl_lit fl 0.40)) \<and>
            total_cost_usd (calculate_cost fl i out model) =
              fl_round6 fl (fl_add fl (fl_mul fl (fl_div fl i 1000000) (fl_lit fl 0.05))
                                      (fl_mul fl (fl_div fl out 1000000) (fl_lit fl 0.40))))
       \<and> (32000 < i \<and> i \<le> 128000 \<longrightarrow>
            input_cost_usd (calculate_cost fl i out model) =
              fl_round6 fl (fl_mul fl (fl_div fl i 1000000) (fl_lit fl 0.075)) \<and>
            output_cost_usd (calculate_cost fl i out model) =
              fl_round6 fl (fl_mul fl (fl_div fl out 1000000) (fl_lit fl 0.60)) \<and>
            total_cost_usd (calculate_cost fl i out model) =
              fl_round6 fl (fl_add fl (fl_mul fl (fl_div fl i 1000000) (fl_lit fl 0.075))
                                      (fl_mul fl (fl_div fl out 1000000) (fl_lit fl 0.60))))
       \<and> (128000 < i \<longrightarrow>
            input_cost_usd (calculate_cost fl i out model) =
              fl_round6 fl (fl_mul fl (fl_div fl i 1000000) (fl_lit fl 0.12)) \<and>
            output_cost_usd (calculate_cost fl i out model) =
              fl_round6 fl (fl_mul fl (fl_div fl out 1000000) (fl_lit fl 0.96)) \<and>
            total_cost_usd (calculate_cost fl i out model) =
              fl_round6 fl (fl_add fl (fl_mul fl (fl_div fl i 1000000) (fl_lit fl 0.12))
                                      (fl_mul fl (fl_div fl out 1000000) (fl_lit fl 0.96))))
       \<and> pricing_model (calculate_cost fl i out model) = ''qwen3-vl-flash-tiered''
       \<and> flash_prices 32000 = (0.05, 0.40)
       \<and> flash_prices 32001 = (0.075, 0.60)
       \<and> flash_prices 128000 = (0.075, 0.60)
       \<and> flash_prices 128001 = (0.12, 0.96)"
proof -
  have low: "i \<le> 32000 \<Longrightarrow> ?thesis"
    using calculate_cost_flash[OF m flash_prices_low, of i fl out]
    by (simp add: flash_prices_def)
  have mid: "32000 < i \<Longrightarrow> i \<le> 128000 \<Longrightarrow> ?thesis"
    using calculate_cost_flash[OF m flash_prices_mid, of i fl out]
    by (simp add: flash_prices_def)
  have top: "128000 < i \<Longrightarrow> ?thesis"
    using calculate_cost_flash[OF m flash_prices_top, of i fl out]
    by (simp add: flash_prices_def)
  show ?thesis
    using low mid top by linarith
qed

theorem tiered_pricing_boundary_witness:
  "str_contains ''qwen3-vl-flash'' (lower ''Qwen3-VL-Flash-2025'')
   \<and> input_cost_usd (calculate_cost as_written 32000 1000 ''Qwen3-VL-Flash-2025'') =
       Round6 (Mul (Div 32000 1000000) (Lit 0.05))
   \<and> output_cost_usd (calculate_cost as_written 32000 1000 ''Qwen3-VL-Flash-2025'') =
       Round6 (Mul (Div 1000 1000000) (Lit 0.40))
   \<and> input_cost_usd (calculate_cost as_written 32001 1000 ''Qwen3-VL-Flash-2025'') =
       Round6 (Mul (Div 32001 1000000) (Lit 0.075))
   \<and> output_cost_usd (calculate_cost as_written 32001 1000 ''Qwen3-VL-Flash-2025'') =
       Round6 (Mul (Div 1000 1000000) (Lit 0.60))
   \<and> input_cost_usd (calculate_cost as_written 128000 1000 ''Qwen3-VL-Flash-2025'') =
       Round6 (Mul (Div 128000 1000000) (Lit 0.075))
   \<and> input_cost_usd (calculate_cost as_written 128001 1000 ''Qwen3-VL-Flash-2025'') =
       Round6 (Mul (Div 128001 1000000) (Lit 0.12))
   \<and> output_cost_usd (calculate_cost as_written 128001 1000 ''Qwen3-VL-Flash-2025'') =
       Round6 (Mul (Div 1000 1000000) (Lit 0.96))"
proof -
  have m: "str_contains ''qwen3-vl-flash'' (lower ''Qwen3-VL-Flash-2025'')"
    by code_simp
  show ?thesis
    using m tiered_pricing_boundary[OF m, of 32000 as_written 1000]
      tiered_pricing_boundary[OF m, of 32001 as_written 1000]
      tiered_pricing_boundary[OF m, of 128000 as_written 1000]
      tiered_pricing_boundary[OF m, of 128001 as_written 1000]
    by (simp add: as_written_def)
qed

section \<open>Properties of the maintenance utility\<close>

subsection \<open>The repair is the removal of trailing commas\<close>

lemma is_space_whitespace: "is_space c \<longleftrightarrow> c \<in> set whitespace"
  unfolding is_space_def whitespace_def by (simp only: set_simps insert_iff empty_iff) arith

lemma is_comma_44: "is_comma c \<longleftrightarrow> c = 44"
  by (simp add: is_comma_def)

lemma is_closer_points: "is_closer b \<longleftrightarrow> b = 125 \<or> b = 93"
  by (simp add: is_closer_def)

lemma not_space_comma: "is_comma c \<Longrightarrow> \<not> is_space c"
  by (simp add: is_comma_44 is_space_def)

lemma not_comma_closer: "is_closer b \<Longrightarrow> \<not> is_comma b"
  by (auto simp: is_closer_points is_comma_44)

lemma before_closer_iff:
  "before_closer cs \<longleftrightarrow> (case dropWhile is_space cs of [] \<Rightarrow> False | b # _ \<Rightarrow> is_closer b)"
proof -
  have eq: "(\<lambda>c. c \<in> set whitespace) = is_space"
    by (rule ext) (simp add: is_space_whitespace)
  show ?thesis unfolding before_closer_def eq is_closer_points by (rule refl)
qed

lemma rtc_spaces:
  "\<forall>c \<in> set ws. is_space c \<Longrightarrow> remove_trailing_commas (ws @ xs) = ws @ remove_trailing_commas xs"
proof (induction ws)
  case Nil
  show ?case by simp
next
  case (Cons w ws)
  then have "w \<noteq> 44" using not_space_comma[of w] by (auto simp: is_comma_44)
  with Cons show ?case by simp
qed

lemma fix_eq: "fix_json_content s = remove_trailing_commas s"
proof (induction s rule: fix_json_content.induct)
  case 1
  show ?case by simp
next
  case (2 c cs)
  show ?case
  proof (cases "is_comma c")
    case False
    then have "c \<noteq> 44" by (simp add: is_comma_44)
    with False 2 show ?thesis by simp
  next
    case True
    then have c: "c = 44" by (simp add: is_comma_44)
    show ?thesis
    proof (cases "dropWhile is_space cs")
      case Nil
      show ?thesis using True 2 by (simp add: before_closer_iff Nil)
    next
      case (Cons b rest)
      show ?thesis
      proof (cases "is_closer b")
        case False
        show ?thesis using True False 2 by (simp add: before_closer_iff Cons)
      next
        case cl: True
        have split: "cs = takeWhile is_space cs @ b # rest"
          using Cons by (metis takeWhile_dropWhile_id)
        have "remove_trailing_commas cs =
                takeWhile is_space cs @ remove_trailing_commas (b # rest)"
          using rtc_spaces[of "takeWhile is_space cs" "b # rest"] split
          by (metis set_takeWhileD)
        moreover have "b \<noteq> 44" using cl not_comma_closer by (auto simp: is_comma_44)
        ultimately show ?thesis
          using True cl 2 c by (simp add: before_closer_iff Cons)
      qed
    qed
  qed
qed


subsection \<open>process\_files, file by file\<close>

lemma remove_keys_obj:
  "remove_keys ks (JObj kvs) = Inr (JObj (filter (\<lambda>e. fst e \<notin> set ks) kvs))"
proof (induction ks arbitrary: kvs)
  case Nil
  show ?case by simp
next
  case (Cons k ks)
  show ?case
  proof (cases "k \<in> set (map fst kvs)")
    case True
    have "filter (\<lambda>e. fst e \<notin> set ks) (AList.delete k kvs) =
          filter (\<lambda>e. fst e \<notin> set (k # ks)) kvs"
      by (induction kvs) (auto simp: AList.delete_eq)
    with True Cons show ?thesis by simp
  next
    case False
    then have "filter (\<lambda>e. fst e \<notin> set ks) kvs = filter (\<lambda>e. fst e \<notin> set (k # ks)) kvs"
      by (induction kvs) auto
    with False Cons show ?thesis by simp
  qed
qed

lemma unexpected_files [simp]: "files (unexpected fn e st) = files st"
  by (simp add: unexpected_def)

lemma strip_and_write_other:
  "g \<noteq> fn \<Longrightarrow> map_of (files (strip_and_write dumps fn data st)) g = map_of (files st) g"
  by (simp add: strip_and_write_def update_conv' split: sum.splits write_result.splits)

lemma process_file_other:
  "g \<noteq> fn \<Longrightarrow> map_of (files (process_file loads dumps fn st)) g = map_of (files st) g"
  by (simp add: process_file_def strip_and_write_other split: option.splits sum.splits)

lemma fold_process_file_other:
  "g \<notin> set ns \<Longrightarrow>
   map_of (files (fold (process_file loads dumps) ns st)) g = map_of (files st) g"
  by (induction ns arbitrary: st) (auto simp: process_file_other)

lemma process_file_self:
  assumes "endswith fn JSON_SUFFIX" and "map_of (files st) fn = Some content"
  shows "map_of (files (process_file loads dumps fn st)) fn = Some (rewritten loads dumps fn content)"
  using assms
  by (simp add: process_file_def strip_and_write_def rewritten_def parsed_def update_conv'
      split: sum.splits write_result.splits)

lemma fold_process_file_self:
  assumes "distinct ns" and "fn \<in> set ns" and "endswith fn JSON_SUFFIX"
    and "map_of (files st) fn = Some content"
  shows "map_of (files (fold (process_file loads dumps) ns st)) fn =
           Some (rewritten loads dumps fn content)"
  using assms
proof (induction ns arbitrary: st)
  case Nil
  then show ?case by simp
next
  case (Cons n ns)
  show ?case
  proof (cases "n = fn")
    case True
    then have "fn \<notin> set ns" using Cons.prems(1) by simp
    then show ?thesis
      using True Cons.prems(3,4) by (simp add: fold_process_file_other process_file_self)
  next
    case False
    then show ?thesis
      using Cons by (simp add: process_file_other)
  qed
qed

lemma process_files_content:
  assumes "distinct (map fst d)" and "(fn, content) \<in> set d" and "endswith fn JSON_SUFFIX"
  shows "\<exists>st. process_files loads dumps (Some d) = Some st \<and>
              map_of (files st) fn = Some (rewritten loads dumps fn content)"
proof -
  have "map_of d fn = Some content" using assms(1,2) by simp
  moreover have "fn \<in> set (listdir d)" using assms(2) by (force simp: listdir_def)
  ultimately show ?thesis
    using assms(1,3) fold_process_file_self[of "listdir d" fn _ content loads dumps]
    by (simp add: process_files_def listdir_def)
qed


lemma strip_and_write_msgs:
  "\<exists>ms. messages (strip_and_write dumps fn data st) = messages st @ ms"
  by (simp add: strip_and_write_def unexpected_def split: sum.splits write_result.splits)

lemma process_file_msgs:
  "\<exists>ms. messages (process_file loads dumps fn st) = messages st @ ms"
proof -
  have "\<exists>ms. messages (strip_and_write dumps fn data (st\<lparr>fixed_count := k\<rparr>)) = messages st @ ms"
    for data k
    using strip_and_write_msgs[of dumps fn data "st\<lparr>fixed_count := k\<rparr>"] by simp
  then show ?thesis
    using strip_and_write_msgs[of dumps fn _ st]
    by (simp add: process_file_def unexpected_def split: option.splits sum.splits)
qed

lemma fold_process_file_msgs:
  "set (messages st) \<subseteq> set (messages (fold (process_file loads dumps) ns st))"
proof (induction ns arbitrary: st)
  case Nil
  show ?case by simp
next
  case (Cons n ns)
  obtain ms where "messages (process_file loads dumps n st) = messages st @ ms"
    using process_file_msgs by blast
  then show ?case using Cons[of "process_file loads dumps n st"] by auto
qed

lemma strip_and_write_count:
  "error_count st = length (messages st) \<Longrightarrow>
   error_count (strip_and_write dumps fn data st) = length (messages (strip_and_write dumps fn data st))"
  by (auto simp: strip_and_write_def unexpected_def split: sum.splits write_result.splits)

lemma process_file_count:
  "error_count st = length (messages st) \<Longrightarrow>
   error_count (process_file loads dumps fn st) = length (messages (process_file loads dumps fn st))"
  by (auto simp: process_file_def unexpected_def strip_and_write_count split: option.splits sum.splits)

lemma fold_process_file_count:
  "error_count st = length (messages st) \<Longrightarrow>
   error_count (fold (process_file loads dumps) ns st) =
     length (messages (fold (process_file loads dumps) ns st))"
  by (induction ns arbitrary: st) (auto simp: process_file_count)

lemma process_file_failed:
  assumes "endswith fn JSON_SUFFIX" and "map_of (files st) fn = Some content"
    and "loads content = Inl JSONDecodeError"
    and "loads (fix_json_content content) = Inl JSONDecodeError"
  shows "process_file loads dumps fn st =
           st\<lparr>error_count := error_count st + 1, messages := messages st @ [Failed_to_fix fn]\<rparr>"
  using assms by (simp add: process_file_def)

lemma fold_process_file_failed:
  assumes "fn \<in> set ns" and "endswith fn JSON_SUFFIX"
    and "\<forall>n \<in> set ns. map_of (files st) n = map_of d n"
    and "distinct ns"
    and "map_of d fn = Some content"
    and "loads content = Inl JSONDecodeError"
    and "loads (fix_json_content content) = Inl JSONDecodeError"
  shows "Failed_to_fix fn \<in> set (messages (fold (process_file loads dumps) ns st))"
  using assms(1,3,4)
proof (induction ns arbitrary: st)
  case Nil
  then show ?case by simp
next
  case (Cons n ns)
  show ?case
  proof (cases "n = fn")
    case True
    have "map_of (files st) fn = Some content" using Cons.prems(2) True assms(5) by simp
    then have "Failed_to_fix fn \<in> set (messages (process_file loads dumps fn st))"
      using process_file_failed[OF assms(2) _ assms(6,7)] by simp
    then show ?thesis
      using True fold_process_file_msgs[of "process_file loads dumps fn st" loads dumps ns] by auto
  next
    case False
    have "map_of (files (process_file loads dumps n st)) m = map_of d m" if "m \<in> set ns" for m
    proof -
      have "m \<noteq> n" using that Cons.prems(3) by auto
      then show ?thesis using Cons.prems(2) that by (simp add: process_file_other)
    qed
    then have "\<forall>m \<in> set ns. map_of (files (process_file loads dumps n st)) m = map_of d m"
      by blast
    then show ?thesis
      using Cons.IH[of "process_file loads dumps n st"] Cons.prems(1,3) False by simp
  qed
qed

subsection \<open>Files that do not parse\<close>

text \<open>
  Claim C7. When \<open>process_files\<close> reads an artifact whose content does not parse
  (\<open>json.loads\<close> raises \<open>JSONDecodeError\<close>), it applies the repair, which removes
  exactly the commas that are followed by optional white space and a closing brace or
  bracket and keeps every other character, and parses the repaired text. When that fails
  again, the file keeps its content, the failure is printed, and every printed failure
  is counted in \<open>error_count\<close>. When it gives an object and the write succeeds, the
  file holds what was written for the object without the metadata.
\<close>

theorem repair_then_untouched:
  assumes "distinct (map fst d)" and "(fn, content) \<in> set d" and "endswith fn JSON_SUFFIX"
    and "loads content = Inl JSONDecodeError"
  shows "fix_json_content content = remove_trailing_commas content
       \<and> (\<exists>st. process_files loads dumps (Some d) = Some st
            \<and> error_count st = length (messages st)
            \<and> (loads (remove_trailing_commas content) = Inl JSONDecodeError \<longrightarrow>
                 map_of (files st) fn = Some content \<and> Failed_to_fix fn \<in> set (messages st))
            \<and> (\<forall>kvs out. loads (remove_trailing_commas content) = Inr (JObj kvs) \<longrightarrow>
                 dumps fn (JObj (filter (\<lambda>e. fst e \<notin> set keys_to_remove) kvs)) = Written out \<longrightarrow>
                 map_of (files st) fn = Some out))"
proof -
  obtain st where st: "process_files loads dumps (Some d) = Some st"
    and c: "map_of (files st) fn = Some (rewritten loads dumps fn content)"
    using process_files_content[OF assms(1-3)] by blast
  have st_eq: "st = fold (process_file loads dumps) (listdir d)
                 \<lparr>files = d, processed_count = 0, fixed_count = 0, error_count = 0, messages = []\<rparr>"
    using st by (simp add: process_files_def)
  have cnt: "error_count st = length (messages st)"
    unfolding st_eq by (rule fold_process_file_count) simp
  have m: "map_of d fn = Some content" using assms(1,2) by simp
  have inl: "fn \<in> set (listdir d)" using assms(2) by (force simp: listdir_def)
  have fail: "map_of (files st) fn = Some content \<and> Failed_to_fix fn \<in> set (messages st)"
    if f: "loads (remove_trailing_commas content) = Inl JSONDecodeError"
  proof -
    have f': "loads (fix_json_content content) = Inl JSONDecodeError" using f by (simp add: fix_eq)
    have "rewritten loads dumps fn content = content"
      using assms(4) f' by (simp add: rewritten_def parsed_def)
    moreover have "Failed_to_fix fn \<in> set (messages st)"
      unfolding st_eq
      by (rule fold_process_file_failed[OF inl assms(3) _ _ m assms(4) f'])
         (use assms(1) in \<open>simp_all add: listdir_def\<close>)
    ultimately show ?thesis using c by simp
  qed
  have ok: "map_of (files st) fn = Some out"
    if f: "loads (remove_trailing_commas content) = Inr (JObj kvs)"
      and w: "dumps fn (JObj (filter (\<lambda>e. fst e \<notin> set keys_to_remove) kvs)) = Written out"
    for kvs out
  proof -
    have "parsed loads content = Some (JObj kvs)"
      using assms(4) f by (simp add: parsed_def fix_eq)
    then show ?thesis using c w by (simp add: rewritten_def remove_keys_obj)
  qed
  show ?thesis using st cnt fail ok by (simp add: fix_eq)
qed

theorem repair_then_untouched_witness:
  "fix_json_content trailing_text = repaired_text
   \<and> fix_json_content (points ''[1,'' @ [0x3000, 0xA0] @ points '']'') =
       points ''[1'' @ [0x3000, 0xA0] @ points '']''
   \<and> (\<exists>st. process_files sample_parse sample_dump (Some sample_captions) = Some st
        \<and> error_count st = length (messages st)
        \<and> map_of (files st) ''y_analysis.json'' = Some (points ''{oops'')
        \<and> Failed_to_fix ''y_analysis.json'' \<in> set (messages st))
   \<and> (\<exists>st. process_files sample_parse sample_dump (Some sample_captions) = Some st
        \<and> map_of (files st) ''x_analysis.json'' =
            Some (points ''{'' @ [10] @ points ''  \"a\": ...'' @ [10] @ points ''}''))"
proof -
  have d: "distinct (map fst sample_captions)" by code_simp
  have y: "(''y_analysis.json'', points ''{oops'') \<in> set sample_captions" by code_simp
  have ys: "endswith ''y_analysis.json'' JSON_SUFFIX" by code_simp
  have yl: "sample_parse (points ''{oops'') = Inl JSONDecodeError" by code_simp
  have yr: "sample_parse (remove_trailing_commas (points ''{oops'')) = Inl JSONDecodeError"
    by code_simp
  have x: "(''x_analysis.json'', trailing_text) \<in> set sample_captions" by code_simp
  have xs: "endswith ''x_analysis.json'' JSON_SUFFIX" by code_simp
  have xl: "sample_parse trailing_text = Inl JSONDecodeError" by code_simp
  have xr: "remove_trailing_commas trailing_text = repaired_text" by code_simp
  have xl': "sample_parse (remove_trailing_commas trailing_text) =
               Inr (JObj [(points ''a'', JArr [JStr (points ''b'')])])" by code_simp
  have xw: "sample_dump ''x_analysis.json''
              (JObj (filter (\<lambda>e. fst e \<notin> set keys_to_remove)
                       [(points ''a'', JArr [JStr (points ''b'')])])) =
            Written (points ''{'' @ [10] @ points ''  \"a\": ...'' @ [10] @ points ''}'')"
    by code_simp
  have e: "fix_json_content (points ''[1,'' @ [0x3000, 0xA0] @ points '']'') =
       points ''[1'' @ [0x3000, 0xA0] @ points '']''" by code_simp
  note ty = repair_then_untouched[where loads = sample_parse and dumps = sample_dump,
      OF d y ys yl]
  note tx = repair_then_untouched[where loads = sample_parse and dumps = sample_dump,
      OF d x xs xl]
  have 1: "fix_json_content trailing_text = repaired_text"
    using tx[THEN conjunct1] unfolding xr .
  from ty[THEN conjunct2] obtain st where sy:
    "process_files sample_parse sample_dump (Some sample_captions) = Some st
       \<and> error_count st = length (messages st)
       \<and> (sample_parse (remove_trailing_commas (points ''{oops'')) = Inl JSONDecodeError \<longrightarrow>
            map_of (files st) ''y_analysis.json'' = Some (points ''{oops'') \<and>
            Failed_to_fix ''y_analysis.json'' \<in> set (messages st))
       \<and> (\<forall>kvs out. sample_parse (remove_trailing_commas (points ''{oops'')) = Inr (JObj kvs) \<longrightarrow>
                 sample_dump ''y_analysis.json''
                   (JObj (filter (\<lambda>e. fst e \<notin> set keys_to_remove) kvs)) = Written out \<longrightarrow>
                 map_of (files st) ''y_analysis.json'' = Some out)" ..
  have 2: "\<exists>st. process_files sample_parse sample_dump (Some sample_captions) = Some st
        \<and> error_count st = length (messages st)
        \<and> map_of (files st) ''y_analysis.json'' = Some (points ''{oops'')
        \<and> Failed_to_fix ''y_analysis.json'' \<in> set (messages st)"
    using sy[THEN conjunct1] sy[THEN conjunct2, THEN conjunct1]
      sy[THEN conjunct2, THEN conjunct2, THEN conjunct1, rule_format, OF yr]
    by (intro exI[of _ st] conjI) (erule conjunct1 conjunct2 asm_rl)+
  from tx[THEN conjunct2] obtain st' where sx:
    "process_files sample_parse sample_dump (Some sample_captions) = Some st'
       \<and> error_count st' = length (messages st')
       \<and> (sample_parse (remove_trailing_commas trailing_text) = Inl JSONDecodeError \<longrightarrow>
            map_of (files st') ''x_analysis.json'' = Some trailing_text \<and>
            Failed_to_fix ''x_analysis.json'' \<in> set (messages st'))
       \<and> (\<forall>kvs out. sample_parse (remove_trailing_commas trailing_text) = Inr (JObj kvs) \<longrightarrow>
                 sample_dump ''x_analysis.json''
                   (JObj (filter (\<lambda>e. fst e \<notin> set keys_to_remove) kvs)) = Written out \<longrightarrow>
                 map_of (files st') ''x_analysis.json'' = Some out)" ..
  have 3: "\<exists>st. process_files sample_parse sample_dump (Some sample_captions) = Some st
        \<and> map_of (files st) ''x_analysis.json'' =
            Some (points ''{'' @ [10] @ points ''  \"a\": ...'' @ [10] @ points ''}'')"
    using sx[THEN conjunct1]
      sx[THEN conjunct2, THEN conjunct2, THEN conjunct2, rule_format, OF xl' xw]
    by (intro exI[of _ st'] conjI)
  from 1 e 2 3 show ?thesis by (intro conjI)
qed

subsection \<open>Files that parse\<close>

lemma rewritten_broke:
  assumes "parsed loads content = Some (JObj kvs)"
    and "dumps fn (JObj (filter (\<lambda>e. fst e \<notin> set keys_to_remove) kvs)) = Broke out e"
  shows "rewritten loads dumps fn content = out"
  using assms by (simp add: rewritten_def remove_keys_obj)

lemma broken_write_keeps_partial:
  assumes "distinct (map fst d)" and "(fn, content) \<in> set d" and "endswith fn JSON_SUFFIX"
    and "parsed loads content = Some (JObj kvs)"
    and "dumps fn (JObj (filter (\<lambda>e. fst e \<notin> set keys_to_remove) kvs)) = Broke out e"
  shows "\<exists>st. process_files loads dumps (Some d) = Some st \<and> map_of (files st) fn = Some out"
  using process_files_content[OF assms(1-3), of loads dumps]
    rewritten_broke[where loads = loads and dumps = dumps and fn = fn, OF assms(4,5)]
  by simp

text \<open>
  Claim C9 on an artifact whose caption is a lone surrogate. The file parses and the
  metadata is removed from the parsed object, but the dump raises at the caption after
  the file has been opened for writing: the file is left with the text written until
  then, the caption is lost, and the file is counted as an error, not as processed.
\<close>

theorem write_failure_truncates:
  "parsed sample_parse surrogate_text =
     Some (JObj [(points ''caption'', JStr [0xD800]), (points ''usage_metadata'', JObj [])])
   \<and> map_option
        (\<lambda>st. (map_of (files st) ''s_analysis.json'', processed_count st, error_count st,
               messages st))
        (process_files sample_parse sample_dump (Some surrogate_captions)) =
       Some (Some (points ''{'' @ [10] @ points ''  \"caption\": ''), 0, 1,
             [Unexpected_error ''s_analysis.json'' UnicodeEncodeError])"
  by code_simp

subsection \<open>clean\_orphans\<close>


lemma orphan_step_captions:
  "captions (orphan_step removable i n st) =
     (if is_orphan i n \<and> removable n then AList.delete n (captions st) else captions st)"
  by (simp add: orphan_step_def is_orphan_def Let_def)

lemma fold_orphan_step_captions:
  fixes st :: "'a orphan_state"
  shows "captions (fold (orphan_step removable i) ns st) =
     filter (\<lambda>e. \<not> (fst e \<in> set ns \<and> is_orphan i (fst e) \<and> removable (fst e))) (captions st)"
proof (induction ns arbitrary: st)
  case Nil
  show ?case by simp
next
  case (Cons n ns)
  have "filter (\<lambda>e. \<not> (fst e \<in> set ns \<and> is_orphan i (fst e) \<and> removable (fst e)))
          (AList.delete n c) =
        filter (\<lambda>e. \<not> (fst e \<in> set (n # ns) \<and> is_orphan i (fst e) \<and> removable (fst e))) c"
    if "is_orphan i n \<and> removable n" for c :: "'a directory"
    using that by (induction c) (auto simp: AList.delete_eq)
  moreover have "filter (\<lambda>e. \<not> (fst e \<in> set ns \<and> is_orphan i (fst e) \<and> removable (fst e))) c =
        filter (\<lambda>e. \<not> (fst e \<in> set (n # ns) \<and> is_orphan i (fst e) \<and> removable (fst e))) c"
    if "\<not> (is_orphan i n \<and> removable n)" for c :: "'a directory"
    using that by (induction c) auto
  ultimately show ?case
    using Cons[of "orphan_step removable i n st"] by (simp add: orphan_step_captions)
qed

text \<open>
  Claim C8, as the code has it. When both directories exist, \<open>clean_orphans\<close> deletes
  an entry of the captions directory if and only if its name ends with the artifact
  suffix, the input directory has no entry named by the artifact's base name (the name
  with every occurrence of the suffix removed) followed by \<open>.mp4\<close>, and the deletion
  succeeds. Every other entry stays, with its content and in its place.
\<close>

theorem orphan_cleanup:
  "\<exists>st. clean_orphans removable (Some c) (Some i) = Some st
       \<and> captions st =
           filter (\<lambda>e. \<not> (endswith (fst e) JSON_SUFFIX
                          \<and> str_remove JSON_SUFFIX (fst e) @ VIDEO_EXT \<notin> set i
                          \<and> removable (fst e))) c"
proof -
  have "filter (\<lambda>e. \<not> (fst e \<in> set (listdir c) \<and> is_orphan i (fst e) \<and> removable (fst e))) c =
        filter (\<lambda>e. \<not> (is_orphan i (fst e) \<and> removable (fst e))) c"
    by (rule filter_cong) (auto simp: listdir_def)
  then show ?thesis
    by (simp add: clean_orphans_def fold_orphan_step_captions is_orphan_def)
qed


theorem orphan_cleanup_witness:
  "\<exists>st. clean_orphans remove_succeeds (Some sample_orphans) (Some [''a.mp4'', ''c.mp4'']) = Some st
       \<and> captions st = [(''a_analysis.json'', ''{}''), (''readme.md'', ''text'')]"
proof -
  have f: "filter (\<lambda>e. \<not> (endswith (fst e) JSON_SUFFIX
                          \<and> str_remove JSON_SUFFIX (fst e) @ VIDEO_EXT \<notin> set [''a.mp4'', ''c.mp4'']
                          \<and> remove_succeeds (fst e))) sample_orphans
        = [(''a_analysis.json'', ''{}''), (''readme.md'', ''text'')]"
    by code_simp
  from orphan_cleanup[of remove_succeeds sample_orphans "[''a.mp4'', ''c.mp4'']"]
  show ?thesis unfolding f .
qed

text \<open>
  The claim as stated fails: with \<open>clip.mov\<close> in the input directory, an input item of
  the work selector with base identifier \<open>clip\<close>, the artifact
  \<open>clip_analysis.json\<close> is deleted all the same, because only \<open>clip.mp4\<close> is looked
  for.
\<close>

theorem orphan_cleanup_counterexample:
  "map_option captions
     (clean_orphans remove_succeeds (Some [(''clip_analysis.json'', ''{}'')]) (Some [''clip.mov''])) =
     Some []
   \<and> has_input_item [''clip.mov''] ''clip''"
  by code_simp

section \<open>Properties of the response normaliser\<close>

lemma find_char_notin: "c \<notin> set s \<Longrightarrow> find_char c s = - 1"
  by (induction s) auto

lemma find_char_first:
  "c \<notin> set pre \<Longrightarrow> find_char c (pre @ c # rest) = int (length pre)"
  by (induction pre) (auto simp: Let_def)

lemma find_char_neg_iff: "find_char c s = - 1 \<longleftrightarrow> c \<notin> set s"
proof
  assume "find_char c s = - 1"
  show "c \<notin> set s"
  proof
    assume "c \<in> set s"
    then obtain pre rest where "s = pre @ c # rest" "c \<notin> set pre"
      by (meson split_list_first)
    then have "find_char c s = int (length pre)" by (simp add: find_char_first)
    with \<open>find_char c s = - 1\<close> show False by simp
  qed
qed (rule find_char_notin)

lemma rfind_char_notin: "c \<notin> set s \<Longrightarrow> rfind_char c s = - 1"
  by (simp add: rfind_char_def find_char_notin)

lemma rfind_char_last:
  assumes "c \<notin> set post"
  shows "rfind_char c (xs @ c # post) = int (length xs)"
proof -
  have "find_char c (rev (xs @ c # post)) = int (length post)"
    using find_char_first[of c "rev post" "rev xs"] assms by simp
  then show ?thesis by (simp add: rfind_char_def)
qed

lemma rfind_char_neg_iff: "rfind_char c s = - 1 \<longleftrightarrow> c \<notin> set s"
proof
  assume neg: "rfind_char c s = - 1"
  show "c \<notin> set s"
  proof
    assume "c \<in> set s"
    then obtain xs post where "s = xs @ c # post" "c \<notin> set post"
      by (meson split_list_last)
    then have "rfind_char c s = int (length xs)" by (simp add: rfind_char_last)
    with neg show False by simp
  qed
qed (rule rfind_char_notin)

lemma slice_from:
  "slice (pre @ ys) (int (length pre)) b = take (clamp_index (length pre + length ys) b - length pre) ys"
  by (simp add: slice_def clamp_index_def Let_def)


lemma slice_at_first:
  assumes "find_char c t \<noteq> - 1"
  shows "slice t (find_char c t) b = [] \<or> hd (slice t (find_char c t) b) = c"
proof -
  have "c \<in> set t" using assms find_char_neg_iff by blast
  then obtain pre rest where t: "t = pre @ c # rest" and "c \<notin> set pre"
    by (meson split_list_first)
  then have f: "find_char c t = int (length pre)" by (simp add: find_char_first)
  have "slice t (find_char c t) b =
          take (clamp_index (length pre + length (c # rest)) b - length pre) (c # rest)"
    unfolding f unfolding t by (rule slice_from)
  then show ?thesis
    by (cases "clamp_index (length pre + length (c # rest)) b - length pre") auto
qed

lemma normalizer_cases:
  "normalizer loads raw =
     (let t = strip_fence raw in
      if CHR ''{'' \<in> set t \<and> CHR ''}'' \<in> set t then
        (case loads (slice t (find_char (CHR ''{'') t) (rfind_char (CHR ''}'') t + 1)) of
           Inr v \<Rightarrow> Inr v | Inl e \<Rightarrow> Inr (error_envelope t))
      else Inr (error_envelope t))"
  by (simp add: normalizer_def find_json_object_def Let_def find_char_neg_iff rfind_char_neg_iff)



lemma normalizer_object:
  assumes "objects_only loads"
  shows "\<exists>kvs. normalizer loads raw = Inr (JObj kvs)"
proof (cases "CHR ''{'' \<in> set (strip_fence raw) \<and> CHR ''}'' \<in> set (strip_fence raw)")
  case False
  then show ?thesis by (auto simp: normalizer_cases error_envelope_def)
next
  case True
  let ?t = "strip_fence raw"
  let ?sub = "slice ?t (find_char (CHR ''{'') ?t) (rfind_char (CHR ''}'') ?t + 1)"
  have "find_char (CHR ''{'') ?t \<noteq> - 1" using True find_char_neg_iff by blast
  then have sub: "?sub = [] \<or> hd ?sub = CHR ''{''" by (rule slice_at_first)
  show ?thesis
  proof (cases "loads ?sub")
    case (Inl e)
    with True show ?thesis by (simp add: normalizer_cases error_envelope_def)
  next
    case (Inr v)
    with assms sub obtain kvs where "v = JObj kvs" unfolding objects_only_def by blast
    with True Inr show ?thesis by (simp add: normalizer_cases)
  qed
qed




lemma startswith_iff: "startswith s p \<longleftrightarrow> (\<exists>rest. s = p @ rest)"
  by (induction s p rule: startswith.induct) auto






lemma sample_loads_objects: "objects_only sample_loads"
  unfolding objects_only_def sample_loads_def by (auto split: if_splits)


section \<open>Properties of the result loop\<close>

lemma truthy_iff: "truthy r \<longleftrightarrow> (\<exists>text md. r = Inr (Some text, md) \<and> text \<noteq> [])"
  by (cases r rule: truthy.cases) auto

lemma merge_metadata_obj: "\<exists>kvs'. merge_metadata (JObj kvs) md = Inr (JObj kvs')"
  by (simp add: merge_metadata_def)

lemma handle_outcome_truthy:
  assumes "objects_only loads" and "truthy r"
  shows "\<exists>content. handle_outcome loads dumps vf r st =
           st\<lparr>out_dir := AList.update (output_name vf) content (out_dir st),
              trace := trace st @ [Wrote vf (output_name vf), Log_success vf]\<rparr>"
proof -
  obtain raw md where r: "r = Inr (Some raw, md)" and t: "raw \<noteq> []"
    using assms(2) truthy_iff by blast
  obtain kvs where n: "normalizer loads raw = Inr (JObj kvs)"
    using normalizer_object[OF assms(1)] by blast
  obtain kvs' where m: "merge_metadata (JObj kvs) md = Inr (JObj kvs')"
    using merge_metadata_obj by blast
  show ?thesis
    by (rule exI[of _ "dumps (JObj kvs')"]) (simp add: handle_outcome_def r t n m emit_def)
qed

lemma handle_outcome_falsy:
  assumes "\<not> truthy r"
  shows "out_dir (handle_outcome loads dumps vf r st) = out_dir st"
    and "\<exists>e. trace (handle_outcome loads dumps vf r st) = trace st @ [e] \<and>
             (e = Log_failed vf \<or> (\<exists>x. e = Log_error vf x))"
    and "\<forall>x. r \<noteq> Inl x \<Longrightarrow> trace (handle_outcome loads dumps vf r st) = trace st @ [Log_failed vf]"
  using assms
  by (cases r rule: truthy.cases; simp add: handle_outcome_def emit_def)+

lemma handle_outcome_trace:
  "\<exists>evs. trace (handle_outcome loads dumps vf r st) = trace st @ evs \<and> evs \<noteq> [] \<and>
         (\<forall>e \<in> set evs. \<not> is_sleep e \<and> event_file e = vf)"
  by (cases r rule: truthy.cases)
     (auto simp: handle_outcome_def emit_def split: sum.splits jvalue.splits)

lemma handle_result_trace:
  "\<exists>evs. trace (handle_result loads dumps D (vf, r) st) = trace st @ evs @ [Slept D] \<and> evs \<noteq> [] \<and>
         (\<forall>e \<in> set evs. \<not> is_sleep e \<and> event_file e = vf)"
  using handle_outcome_trace[of loads dumps vf r st]
  by (auto simp: handle_result_def emit_def)

lemma handle_result_sleeps:
  "filter is_sleep (trace (handle_result loads dumps D item st)) =
     filter is_sleep (trace st) @ [Slept D]"
proof -
  obtain evs where "trace (handle_result loads dumps D (fst item, snd item) st) = trace st @ evs @ [Slept D]"
    and "\<forall>e \<in> set evs. \<not> is_sleep e \<and> event_file e = fst item"
    using handle_result_trace by blast
  then show ?thesis by (simp add: filter_empty_conv[THEN iffD2])
qed

lemma main_loop_sleeps:
  "filter is_sleep (trace (main_loop loads dumps D batch st)) =
     filter is_sleep (trace st) @ replicate (length batch) (Slept D)"
proof (induction batch arbitrary: st)
  case Nil
  show ?case by (simp add: main_loop_def)
next
  case (Cons item batch)
  have "main_loop loads dumps D (item # batch) st =
          main_loop loads dumps D batch (handle_result loads dumps D item st)"
    by (simp add: main_loop_def)
  then show ?case
    using Cons[of "handle_result loads dumps D item st"]
    by (simp add: handle_result_sleeps replicate_append_same)
qed

lemma handle_result_wrote:
  assumes "objects_only loads"
  shows "Wrote vf n \<in> set (trace (handle_result loads dumps D (v, r) st)) \<longleftrightarrow>
           Wrote vf n \<in> set (trace st) \<or> (vf = v \<and> n = output_name v \<and> truthy r)"
proof (cases "truthy r")
  case True
  obtain content where "handle_outcome loads dumps v r st =
           st\<lparr>out_dir := AList.update (output_name v) content (out_dir st),
              trace := trace st @ [Wrote v (output_name v), Log_success v]\<rparr>"
    using handle_outcome_truthy[OF assms True] by blast
  then show ?thesis using True by (auto simp: handle_result_def emit_def)
next
  case False
  obtain e where "trace (handle_outcome loads dumps v r st) = trace st @ [e]"
    and "e = Log_failed v \<or> (\<exists>x. e = Log_error v x)"
    using handle_outcome_falsy(2)[OF False] by blast
  then show ?thesis using False by (auto simp: handle_result_def emit_def)
qed

lemma main_loop_Cons:
  "main_loop loads dumps D (item # batch) st =
     main_loop loads dumps D batch (handle_result loads dumps D item st)"
  by (simp add: main_loop_def)

lemma main_loop_wrote:
  assumes "objects_only loads"
  shows "Wrote vf n \<in> set (trace (main_loop loads dumps D batch st)) \<longleftrightarrow>
           Wrote vf n \<in> set (trace st) \<or>
           (n = output_name vf \<and> (\<exists>r. (vf, r) \<in> set batch \<and> truthy r))"
proof (induction batch arbitrary: st)
  case Nil
  show ?case by (simp add: main_loop_def)
next
  case (Cons item batch)
  obtain v r where item: "item = (v, r)" by (cases item)
  show ?case
    unfolding main_loop_Cons Cons.IH item handle_result_wrote[OF assms] by auto
qed

lemma handle_result_grows:
  "\<exists>evs. trace (handle_result loads dumps D item st) = trace st @ evs"
  using handle_result_trace[of loads dumps D "fst item" "snd item" st] by auto

lemma main_loop_grows:
  "\<exists>evs. trace (main_loop loads dumps D batch st) = trace st @ evs"
proof (induction batch arbitrary: st)
  case Nil
  show ?case by (simp add: main_loop_def)
next
  case (Cons item batch)
  obtain e1 where "trace (handle_result loads dumps D item st) = trace st @ e1"
    using handle_result_grows by blast
  moreover obtain e2 where "trace (main_loop loads dumps D batch (handle_result loads dumps D item st))
      = trace (handle_result loads dumps D item st) @ e2"
    using Cons by blast
  ultimately show ?case unfolding main_loop_Cons by simp
qed

lemma main_loop_failed:
  assumes "(vf, r) \<in> set batch" and "\<not> truthy r" and "\<forall>x. r \<noteq> Inl x"
  shows "Log_failed vf \<in> set (trace (main_loop loads dumps D batch st))"
  using assms(1)
proof (induction batch arbitrary: st)
  case Nil
  then show ?case by simp
next
  case (Cons item batch)
  show ?case
  proof (cases "item = (vf, r)")
    case True
    have "trace (handle_outcome loads dumps vf r st) = trace st @ [Log_failed vf]"
      using handle_outcome_falsy(3)[OF assms(2)] assms(3) by blast
    then have "Log_failed vf \<in> set (trace (handle_result loads dumps D item st))"
      by (simp add: True handle_result_def emit_def)
    moreover obtain evs where "trace (main_loop loads dumps D batch (handle_result loads dumps D item st))
      = trace (handle_result loads dumps D item st) @ evs"
      using main_loop_grows by blast
    ultimately show ?thesis unfolding main_loop_Cons by simp
  next
    case False
    then have "(vf, r) \<in> set batch" using Cons.prems by auto
    then show ?thesis unfolding main_loop_Cons by (rule Cons.IH)
  qed
qed

lemma update_listdir: "set (listdir (AList.update k v d)) = insert k (set (listdir d))"
  by (auto simp: listdir_def update_keys)

lemma handle_result_files:
  "set (listdir (out_dir st)) \<subseteq> set (listdir (out_dir (handle_result loads dumps D item st)))"
  by (auto simp: handle_result_def handle_outcome_def emit_def update_listdir
      split: sum.splits option.splits prod.splits)

lemma main_loop_files:
  "set (listdir (out_dir st)) \<subseteq> set (listdir (out_dir (main_loop loads dumps D batch st)))"
proof (induction batch arbitrary: st)
  case Nil
  show ?case by (simp add: main_loop_def)
next
  case (Cons item batch)
  show ?case unfolding main_loop_Cons
    using handle_result_files[of st loads dumps D item]
      Cons[of "handle_result loads dumps D item st"] by blast
qed

lemma main_loop_artifact:
  assumes "objects_only loads" and "(vf, r) \<in> set batch" and "truthy r"
  shows "output_name vf \<in> set (listdir (out_dir (main_loop loads dumps D batch st)))"
  using assms(2)
proof (induction batch arbitrary: st)
  case Nil
  then show ?case by simp
next
  case (Cons item batch)
  show ?case
  proof (cases "item = (vf, r)")
    case True
    obtain content where "handle_outcome loads dumps vf r st =
           st\<lparr>out_dir := AList.update (output_name vf) content (out_dir st),
              trace := trace st @ [Wrote vf (output_name vf), Log_success vf]\<rparr>"
      using handle_outcome_truthy[OF assms(1,3)] by blast
    then have "output_name vf \<in> set (listdir (out_dir (handle_result loads dumps D item st)))"
      by (simp add: True handle_result_def emit_def update_listdir)
    then show ?thesis unfolding main_loop_Cons
      using main_loop_files[of "handle_result loads dumps D item st" loads dumps D batch] by blast
  next
    case False
    then have "(vf, r) \<in> set batch" using Cons.prems by auto
    then show ?thesis unfolding main_loop_Cons by (rule Cons.IH)
  qed
qed



text \<open>
  Claim C6. The pacing sleep is not in the worker. With a pool of one worker, a budget of
  60 requests per minute and a pacing delay of half a second, two items of one second each
  are begun at 0 and at 1: the worker begins the second item at the very time it finishes
  the first. The only sleep of \<open>request_delay\<close> is the one of the loop that collects
  the results, after each result is handled.
\<close>

theorem worker_begins_next_at_once:
  "worker_loop 60 [1, 1] 0 [] = [(0, 1), (1, 2)]
   \<and> \<not> paced (1 / 2) (worker_loop 60 [1, 1] 0 [])
   \<and> filter is_sleep
         (trace (main_loop sample_loads sample_dumps (1 / 2)
                   [(''a.mp4'', Inr (Some ''{\"a\": 1}'', [])), (''b.mp4'', Inr (Some [], []))]
                   \<lparr>out_dir = [], trace = []\<rparr>)) =
       [Slept (1 / 2), Slept (1 / 2)]"
  by code_simp
section \<open>Properties of the work selector and of two runs in a row\<close>

lemma endswith_iff: "endswith s suf \<longleftrightarrow> (\<exists>pre. s = pre @ suf)"
proof
  assume "endswith s suf"
  then obtain rest where "rev s = rev suf @ rest"
    unfolding endswith_def startswith_iff by blast
  then have "s = rev rest @ suf" by (metis rev_append rev_rev_ident)
  then show "\<exists>pre. s = pre @ suf" by blast
next
  assume "\<exists>pre. s = pre @ suf"
  then show "endswith s suf" unfolding endswith_def startswith_iff by auto
qed

lemma lower_char_range:
  "lower_char c = c \<or> (97 \<le> (of_char (lower_char c) :: nat) \<and> (of_char (lower_char c) :: nat) \<le> 122)"
proof (cases "65 \<le> (of_char c :: nat) \<and> (of_char c :: nat) \<le> 90")
  case False
  then have "lower_char c = c" unfolding lower_char_def Let_def by (simp only: if_False)
  then show ?thesis ..
next
  case True
  then have l: "lower_char c = char_of ((of_char c :: nat) + 32)"
    unfolding lower_char_def Let_def by (simp only: if_True simp_thms)
  have "(of_char (char_of ((of_char c :: nat) + 32)) :: nat) = ((of_char c :: nat) + 32) mod 256"
    by (rule of_char_of)
  also have "\<dots> = (of_char c :: nat) + 32" using True by (intro mod_less) linarith
  finally have "(of_char (lower_char c) :: nat) = (of_char c :: nat) + 32" unfolding l .
  with True show ?thesis by linarith
qed

lemma of_char_dot: "(of_char (CHR ''.'') :: nat) = 46" by simp
lemma of_char_slash: "(of_char (CHR ''/'') :: nat) = 47" by simp
lemma lower_char_fixed:
  assumes "lower_char c = d" and "(of_char d :: nat) < 97"
  shows "c = d"
proof (rule ccontr)
  assume "c \<noteq> d"
  with assms(1) have "lower_char c \<noteq> c" by auto
  then have "97 \<le> (of_char (lower_char c) :: nat)" using lower_char_range[of c] by blast
  then have "97 \<le> (of_char d :: nat)" unfolding assms(1) .
  with assms(2) show False by linarith
qed

lemma lower_char_dot: "lower_char c = CHR ''.'' \<Longrightarrow> c = CHR ''.''"
proof -
  have "(of_char (CHR ''.'') :: nat) < 97" unfolding of_char_dot by simp
  then show "lower_char c = CHR ''.'' \<Longrightarrow> c = CHR ''.''" by (rule lower_char_fixed[rotated])
qed

lemma lower_char_slash: "lower_char c = CHR ''/'' \<Longrightarrow> c = CHR ''/''"
proof -
  have "(of_char (CHR ''/'') :: nat) < 97" unfolding of_char_slash by simp
  then show "lower_char c = CHR ''/'' \<Longrightarrow> c = CHR ''/''" by (rule lower_char_fixed[rotated])
qed

lemma lower_char_dot_iff: "lower_char c = CHR ''.'' \<longleftrightarrow> c = CHR ''.''"
proof
  assume "c = CHR ''.''"
  have "\<not> (65 \<le> (of_char (CHR ''.'') :: nat) \<and> (of_char (CHR ''.'') :: nat) \<le> 90)"
    unfolding of_char_dot by simp
  then have "lower_char (CHR ''.'') = CHR ''.''"
    unfolding lower_char_def Let_def by (simp only: if_False)
  then show "lower_char c = CHR ''.''" unfolding \<open>c = CHR ''.''\<close> .
qed (rule lower_char_dot)

lemma lower_char_slash_iff: "lower_char c = CHR ''/'' \<longleftrightarrow> c = CHR ''/''"
proof
  assume "c = CHR ''/''"
  have "\<not> (65 \<le> (of_char (CHR ''/'') :: nat) \<and> (of_char (CHR ''/'') :: nat) \<le> 90)"
    unfolding of_char_slash by simp
  then have "lower_char (CHR ''/'') = CHR ''/''"
    unfolding lower_char_def Let_def by (simp only: if_False)
  then show "lower_char c = CHR ''/''" unfolding \<open>c = CHR ''/''\<close> .
qed (rule lower_char_slash)
lemma lower_suffix4:
  assumes "lower v = pre @ [a, b, c, d]"
  shows "\<exists>w a' b' c' d'. v = w @ [a', b', c', d'] \<and> lower_char a' = a \<and> lower_char b' = b
            \<and> lower_char c' = c \<and> lower_char d' = d"
proof -
  have "map lower_char v = pre @ [a, b, c, d]" using assms by (simp add: lower_def)
  then obtain w e where v: "v = w @ e" and "map lower_char w = pre" and e: "map lower_char e = [a, b, c, d]"
    by (metis map_eq_append_conv)
  from e obtain a' b' c' d' where "e = [a', b', c', d']" "lower_char a' = a" "lower_char b' = b"
    "lower_char c' = c" "lower_char d' = d"
    by (auto simp: map_eq_Cons_conv)
  with v show ?thesis by blast
qed

lemma lower_ext_shape:
  assumes l: "lower v = pre @ [CHR ''.'', a, b, c]"
    and nd: "a \<noteq> CHR ''.''" "b \<noteq> CHR ''.''" "c \<noteq> CHR ''.''"
    and ns: "a \<noteq> CHR ''/''" "b \<noteq> CHR ''/''" "c \<noteq> CHR ''/''"
  shows "\<exists>w x y z. v = w @ [CHR ''.'', x, y, z] \<and> CHR ''.'' \<notin> set [x, y, z] \<and> CHR ''/'' \<notin> set [x, y, z]"
proof -
  from lower_suffix4[OF l] obtain w d x y z where v: "v = w @ [d, x, y, z]"
    and lc: "lower_char d = CHR ''.''" "lower_char x = a" "lower_char y = b" "lower_char z = c"
    by blast
  have d: "d = CHR ''.''" using lc(1) by (rule lower_char_dot)
  have "x \<noteq> CHR ''.''" "y \<noteq> CHR ''.''" "z \<noteq> CHR ''.''"
    using lc(2-4) nd lower_char_dot_iff by blast+
  moreover have "x \<noteq> CHR ''/''" "y \<noteq> CHR ''/''" "z \<noteq> CHR ''/''"
    using lc(2-4) ns lower_char_slash_iff by blast+
  ultimately have "CHR ''.'' \<notin> set [x, y, z] \<and> CHR ''/'' \<notin> set [x, y, z]" by auto
  with v d show ?thesis by blast
qed

lemma is_video_shape:
  assumes "is_video v"
  shows "\<exists>w x y z. v = w @ [CHR ''.'', x, y, z] \<and> CHR ''.'' \<notin> set [x, y, z] \<and> CHR ''/'' \<notin> set [x, y, z]"
proof -
  consider "endswith (lower v) ''.mp4''" | "endswith (lower v) ''.mov''" | "endswith (lower v) ''.avi''"
    using assms unfolding is_video_def by blast
  then show ?thesis
  proof cases
    case 1
    then obtain pre where "lower v = pre @ ''.mp4''" unfolding endswith_iff by blast
    then have "lower v = pre @ [CHR ''.'', CHR ''m'', CHR ''p'', CHR ''4'']" by simp
    then show ?thesis by (rule lower_ext_shape) simp_all
  next
    case 2
    then obtain pre where "lower v = pre @ ''.mov''" unfolding endswith_iff by blast
    then have "lower v = pre @ [CHR ''.'', CHR ''m'', CHR ''o'', CHR ''v'']" by simp
    then show ?thesis by (rule lower_ext_shape) simp_all
  next
    case 3
    then obtain pre where "lower v = pre @ ''.avi''" unfolding endswith_iff by blast
    then have "lower v = pre @ [CHR ''.'', CHR ''a'', CHR ''v'', CHR ''i'']" by simp
    then show ?thesis by (rule lower_ext_shape) simp_all
  qed
qed
lemma rfind_char_bounds: "- 1 \<le> rfind_char c s \<and> rfind_char c s < int (length s)"
proof (cases "c \<in> set s")
  case False
  then show ?thesis by (simp add: rfind_char_notin)
next
  case True
  then obtain xs post where "s = xs @ c # post" "c \<notin> set post" by (meson split_list_last)
  then show ?thesis by (simp add: rfind_char_last)
qed

lemma rfind_char_append_notin:
  assumes "c \<notin> set ys"
  shows "rfind_char c (xs @ ys) = rfind_char c xs"
proof (cases "c \<in> set xs")
  case False
  with assms show ?thesis by (simp add: rfind_char_notin)
next
  case True
  then obtain as post where xs: "xs = as @ c # post" "c \<notin> set post" by (meson split_list_last)
  have "rfind_char c (as @ c # (post @ ys)) = int (length as)"
    by (rule rfind_char_last) (use xs assms in simp)
  moreover have "rfind_char c (as @ c # post) = int (length as)"
    by (rule rfind_char_last) (use xs in simp)
  ultimately show ?thesis using xs by simp
qed

lemma splitext_split:
  assumes dot: "CHR ''.'' \<notin> set e" and sl: "CHR ''/'' \<notin> set e"
    and k: "nat (rfind_char (CHR ''/'') n + 1) \<le> k" "k < length n" "n ! k \<noteq> CHR ''.''"
  shows "splitext (n @ CHR ''.'' # e) = (n, CHR ''.'' # e)"
proof -
  have d: "rfind_char (CHR ''.'') (n @ CHR ''.'' # e) = int (length n)"
    using dot by (rule rfind_char_last)
  have s: "rfind_char (CHR ''/'') (n @ CHR ''.'' # e) = rfind_char (CHR ''/'') n"
    by (rule rfind_char_append_notin) (use sl in simp)
  have lt: "rfind_char (CHR ''/'') n < int (length n)" using rfind_char_bounds by blast
  have "k \<in> set [nat (rfind_char (CHR ''/'') n + 1) ..< length n]" using k by simp
  moreover have "(n @ CHR ''.'' # e) ! k \<noteq> CHR ''.''" using k by (simp add: nth_append)
  ultimately have ex: "list_ex (\<lambda>k. (n @ CHR ''.'' # e) ! k \<noteq> CHR ''.'')
                        [nat (rfind_char (CHR ''/'') n + 1) ..< length n]"
    unfolding list_ex_iff by blast
  show ?thesis
    unfolding splitext_def Let_def d s using lt ex by simp
qed

lemma splitext_nosplit:
  assumes dot: "CHR ''.'' \<notin> set e" and sl: "CHR ''/'' \<notin> set e"
    and k: "\<not> list_ex (\<lambda>k. n ! k \<noteq> CHR ''.'') [nat (rfind_char (CHR ''/'') n + 1) ..< length n]"
  shows "splitext (n @ CHR ''.'' # e) = (n @ CHR ''.'' # e, [])"
proof -
  have d: "rfind_char (CHR ''.'') (n @ CHR ''.'' # e) = int (length n)"
    using dot by (rule rfind_char_last)
  have s: "rfind_char (CHR ''/'') (n @ CHR ''.'' # e) = rfind_char (CHR ''/'') n"
    by (rule rfind_char_append_notin) (use sl in simp)
  have "\<not> list_ex (\<lambda>k. (n @ CHR ''.'' # e) ! k \<noteq> CHR ''.'')
                        [nat (rfind_char (CHR ''/'') n + 1) ..< length n]"
    using k unfolding list_ex_iff by (auto simp: nth_append)
  then show ?thesis
    unfolding splitext_def Let_def d s by simp
qed

lemma splitext_output_name:
  assumes "is_video v"
  shows "splitext (output_name v) = (fst (splitext v), ''.json'')"
proof -
  obtain w x y z where v: "v = w @ [CHR ''.'', x, y, z]"
    and nd: "CHR ''.'' \<notin> set [x, y, z]" and ns: "CHR ''/'' \<notin> set [x, y, z]"
    using is_video_shape[OF assms] by blast
  have j: "CHR ''.'' \<notin> set ''json''" "CHR ''/'' \<notin> set ''json''" by simp_all
  have v': "v = w @ CHR ''.'' # [x, y, z]" using v by simp
  show ?thesis
  proof (cases "list_ex (\<lambda>k. w ! k \<noteq> CHR ''.'') [nat (rfind_char (CHR ''/'') w + 1) ..< length w]")
    case True
    then obtain k where k: "nat (rfind_char (CHR ''/'') w + 1) \<le> k" "k < length w" "w ! k \<noteq> CHR ''.''"
      unfolding list_ex_iff by auto
    have "splitext v = (w, CHR ''.'' # [x, y, z])"
      unfolding v' by (rule splitext_split[OF nd ns k])
    moreover have "splitext (w @ CHR ''.'' # ''json'') = (w, CHR ''.'' # ''json'')"
      by (rule splitext_split[OF j k])
    ultimately show ?thesis by (simp add: output_name_def)
  next
    case False
    have sv: "splitext v = (v, [])"
      unfolding v' by (rule splitext_nosplit[OF nd ns False])
    have s: "rfind_char (CHR ''/'') v = rfind_char (CHR ''/'') w"
      unfolding v by (rule rfind_char_append_notin) (use ns in simp)
    have b: "- 1 \<le> rfind_char (CHR ''/'') w" "rfind_char (CHR ''/'') w < int (length w)"
      using rfind_char_bounds by blast+
    have k: "nat (rfind_char (CHR ''/'') v + 1) \<le> length w + 1" "length w + 1 < length v"
      "v ! (length w + 1) \<noteq> CHR ''.''"
      using b nd unfolding s by (auto simp: v nth_append)
    have "splitext (v @ CHR ''.'' # ''json'') = (v, CHR ''.'' # ''json'')"
      by (rule splitext_split[OF j k])
    with sv show ?thesis by (simp add: output_name_def)
  qed
qed

lemma output_name_json: "endswith (output_name v) ''.json''"
  unfolding endswith_iff output_name_def by blast

lemma rearranges_set: "rearranges f \<Longrightarrow> set (f xs) = set xs"
  unfolding rearranges_def by (metis mset_eq_setD)

lemma rearranges_length: "rearranges f \<Longrightarrow> length (f xs) = length xs"
  unfolding rearranges_def by (metis mset_eq_length)

lemma slice_subset: "set (slice xs a b) \<subseteq> set xs"
  unfolding slice_def Let_def by (meson set_take_subset set_drop_subset subset_trans)

lemma slice_all: "int (length xs) \<le> m \<Longrightarrow> slice xs 0 m = xs"
  by (auto simp: slice_def clamp_index_def Let_def)

lemma get_video_files_eq:
  "get_video_files sh (Some names) (Some out) m s =
     slice (if s then sh (eligible names out) else eligible names out) 0 m"
  by (simp add: get_video_files_def eligible_def Let_def)

lemma get_video_files_subset:
  assumes "rearranges sh"
  shows "set (get_video_files sh (Some names) (Some out) m s) \<subseteq> set (eligible names out)"
  unfolding get_video_files_eq
  using slice_subset[of "if s then sh (eligible names out) else eligible names out" 0 m]
    rearranges_set[OF assms, of "eligible names out"] by (auto split: if_splits)

lemma get_video_files_all:
  assumes "rearranges sh" and "int (length (filter is_video names)) \<le> m"
  shows "set (get_video_files sh (Some names) (Some out) m s) = set (eligible names out)"
proof -
  have "length (eligible names out) \<le> length (filter is_video names)"
    unfolding eligible_def by (rule length_filter_le)
  then have "int (length (if s then sh (eligible names out) else eligible names out)) \<le> m"
    using assms(2) rearranges_length[OF assms(1), of "eligible names out"] by auto
  then show ?thesis
    unfolding get_video_files_eq
    using rearranges_set[OF assms(1), of "eligible names out"] by (simp add: slice_all)
qed

lemma eligible_excludes:
  assumes "output_name v \<in> set out"
  shows "v \<notin> set (eligible names out)"
proof
  assume "v \<in> set (eligible names out)"
  then have v: "is_video v"
    and n: "fst (splitext v) \<notin>
              set (map (\<lambda>f. fst (splitext f)) (filter (\<lambda>f. endswith f ''.json'') out))"
    unfolding eligible_def by auto
  have "output_name v \<in> set (filter (\<lambda>f. endswith f ''.json'') out)"
    using assms output_name_json by simp
  then have "fst (splitext (output_name v)) \<in>
              set (map (\<lambda>f. fst (splitext f)) (filter (\<lambda>f. endswith f ''.json'') out))"
    by (metis (no_types, lifting) image_eqI list.set_map)
  with n show False unfolding splitext_output_name[OF v] by simp
qed

lemma eligible_mono:
  assumes "set out \<subseteq> set out'"
  shows "set (eligible names out') \<subseteq> set (eligible names out)"
  using assms unfolding eligible_def by auto

lemma eligible_set:
  "set (eligible names out) =
     {v \<in> set names. is_video v \<and>
        fst (splitext v) \<notin> (\<lambda>f. fst (splitext f)) ` {f \<in> set out. endswith f ''.json''}}"
  unfolding eligible_def by auto

lemma dispatch_keeps:
  "set (listdir out) \<subseteq>
     set (listdir (out_dir (dispatch sh completed loads dumps worker D input m s out)))"
  using main_loop_files[of "\<lparr>out_dir = out, trace = []\<rparr>" loads dumps D]
  by (auto simp: dispatch_def Let_def)

lemma dispatch_artifact:
  assumes "objects_only loads" and "rearranges completed"
    and "v \<in> set (get_video_files sh input (Some (listdir out)) m s)"
    and "truthy (worker v)"
  shows "output_name v \<in>
           set (listdir (out_dir (dispatch sh completed loads dumps worker D input m s out)))"
proof -
  let ?first = "get_video_files sh input (Some (listdir out)) m s"
  have ne: "?first \<noteq> []" using assms(3) by auto
  have "v \<in> set (completed ?first)" using assms(3) rearranges_set[OF assms(2)] by simp
  then have "(v, worker v) \<in> set (map (\<lambda>vf. (vf, worker vf)) (completed ?first))" by auto
  from main_loop_artifact[OF assms(1) this assms(4), of dumps D "\<lparr>out_dir = out, trace = []\<rparr>"]
  show ?thesis using ne by (simp add: dispatch_def Let_def)
qed

lemma rearranges_rev: "rearranges rev"
  by (simp add: rearranges_def)

lemma rearranges_id: "rearranges id"
  by (simp add: rearranges_def)

lemma sample_worker_truthy: "truthy (sample_worker v)"
  by (simp add: sample_worker_def)


text \<open>
  Claim C4, as the code has it. Take a run of the dispatcher and the selection a second
  run makes on the same input directory and on the output directory the first run left.
  Every video for which the first run wrote an artifact is excluded from the second
  selection. When the first run wrote an artifact for every video it selected and the
  cap \<open>max_items\<close> is at least the number of videos in the input directory, the second
  selection is empty. Under that cap the selector returns exactly the videos of the input
  directory whose name without extension is not that of a \<open>.json\<close> file of the output
  directory.
\<close>

theorem second_run_skips_written:
  assumes "objects_only loads" and "rearranges shuffled" and "rearranges shuffled'"
    and "rearranges completed"
  shows "let first = get_video_files shuffled (Some names) (Some (listdir out)) max_items shuffle;
             out1 = out_dir (dispatch shuffled completed loads dumps worker D (Some names)
                               max_items shuffle out);
             second = get_video_files shuffled' (Some names) (Some (listdir out1)) max_items shuffle
         in (\<forall>v \<in> set first. truthy (worker v) \<longrightarrow> v \<notin> set second)
          \<and> ((\<forall>v \<in> set first. truthy (worker v)) \<and>
               int (length (filter is_video names)) \<le> max_items \<longrightarrow> second = [])
          \<and> (int (length (filter is_video names)) \<le> max_items \<longrightarrow>
               set first =
                 {v \<in> set names. is_video v \<and>
                    fst (splitext v) \<notin>
                      (\<lambda>f. fst (splitext f)) ` {f \<in> set (listdir out). endswith f ''.json''}})"
proof -
  define first where "first = get_video_files shuffled (Some names) (Some (listdir out)) max_items shuffle"
  define out1 where "out1 = out_dir (dispatch shuffled completed loads dumps worker D (Some names)
                               max_items shuffle out)"
  define second where "second = get_video_files shuffled' (Some names) (Some (listdir out1)) max_items shuffle"
  have written: "output_name v \<in> set (listdir out1)" if "v \<in> set first" "truthy (worker v)" for v
    using dispatch_artifact[OF assms(1,4), of v shuffled "Some names" out max_items shuffle worker dumps D]
      that unfolding first_def out1_def by simp
  have sub2: "set second \<subseteq> set (eligible names (listdir out1))"
    unfolding second_def by (rule get_video_files_subset[OF assms(3)])
  have a: "v \<notin> set second" if "v \<in> set first" "truthy (worker v)" for v
    using eligible_excludes[OF written[OF that]] sub2 by blast
  have b: "second = []"
    if all: "\<forall>v \<in> set first. truthy (worker v)"
      and cap: "int (length (filter is_video names)) \<le> max_items"
  proof -
    have f: "set first = set (eligible names (listdir out))"
      unfolding first_def by (rule get_video_files_all[OF assms(2) cap])
    have "set (listdir out) \<subseteq> set (listdir out1)"
      unfolding out1_def by (rule dispatch_keeps)
    then have "set (eligible names (listdir out1)) \<subseteq> set first"
      unfolding f by (rule eligible_mono)
    then have s: "set second \<subseteq> set first" using sub2 by blast
    have "v \<notin> set second" for v
    proof
      assume v: "v \<in> set second"
      then have "v \<in> set first" using s by (rule subsetD[rotated])
      moreover from this have "truthy (worker v)" using all by (rule bspec[rotated])
      ultimately have "v \<notin> set second" by (rule a)
      with v show False by (rule notE[rotated])
    qed
    then have "set second = {}" by (simp only: set_empty2[symmetric] all_not_in_conv[symmetric] simp_thms)
    then show ?thesis by simp
  qed
  have c: "set first =
                 {v \<in> set names. is_video v \<and>
                    fst (splitext v) \<notin>
                      (\<lambda>f. fst (splitext f)) ` {f \<in> set (listdir out). endswith f ''.json''}}"
    if cap: "int (length (filter is_video names)) \<le> max_items"
    unfolding first_def get_video_files_all[OF assms(2) cap] by (rule eligible_set)
  show ?thesis
    unfolding Let_def first_def[symmetric] out1_def[symmetric] second_def[symmetric]
    using a b c by blast
qed


theorem second_run_skips_written_witness:
  "get_video_files rev (Some [''a.mp4'', ''b.mp4''])
     (Some (listdir (out_dir (dispatch rev rev sample_loads sample_dumps sample_worker (1 / 2)
                                (Some [''a.mp4'', ''b.mp4'']) 5 True []))))
     5 True = []"
proof -
  have cap: "int (length (filter is_video [''a.mp4'', ''b.mp4''])) \<le> 5" by code_simp
  have all: "\<forall>v \<in> set (get_video_files rev (Some [''a.mp4'', ''b.mp4'']) (Some (listdir [])) 5 True).
               truthy (sample_worker v)"
    using sample_worker_truthy by blast
  from second_run_skips_written[OF sample_loads_objects rearranges_rev rearranges_rev rearranges_rev,
      where names = "[''a.mp4'', ''b.mp4'']" and out = "[]" and max_items = 5 and shuffle = True
        and worker = sample_worker and dumps = sample_dumps and D = "1 / 2"]
  show ?thesis unfolding Let_def using cap all by blast
qed


text \<open>
  The claim as stated fails: with \<open>max_items = 1\<close> and two videos, the first run
  processes one of them and the second run selects the other.
\<close>

theorem second_run_counterexample:
  "get_video_files id (Some [''a.mp4'', ''b.mp4''])
     (Some (listdir (out_dir (dispatch id id sample_loads sample_dumps sample_worker (1 / 2)
                                (Some [''a.mp4'', ''b.mp4'']) 1 False []))))
     1 False = [''b.mp4'']"
  by code_simp

section \<open>Properties of the rate admission\<close>

lemma evict_sorted: "sorted ts \<Longrightarrow> evict now ts = filter (\<lambda>t. now - t \<le> 60) ts"
proof (induction ts)
  case Nil
  show ?case by simp
next
  case (Cons t ts)
  show ?case
  proof (cases "now - t > 60")
    case True
    with Cons show ?thesis by simp
  next
    case False
    have "\<forall>x \<in> set ts. now - x \<le> 60" using Cons.prems False by fastforce
    then have "filter (\<lambda>t. now - t \<le> 60) ts = ts" by (simp add: filter_id_conv)
    with False show ?thesis by simp
  qed
qed

lemma evict_front: "evict now ts = t0 # rest \<Longrightarrow> now - t0 \<le> 60"
  by (induction ts) (auto split: if_splits)


lemma check_block_steps:
  assumes "sorted window" and "1 \<le> max_rpm"
  shows "\<exists>ts wait. check_block max_rpm now window = Inr (ts, wait)
           \<and> ts = filter (\<lambda>t. now - t \<le> 60) window
           \<and> (max_rpm \<le> int (length ts) \<longrightarrow> ts \<noteq> [] \<and> wait = hd ts + 60 - now \<and> 0 \<le> wait)
           \<and> (int (length ts) < max_rpm \<longrightarrow> wait = 0)"
proof (cases "max_rpm \<le> int (length (evict now window))")
  case False
  then show ?thesis
    using evict_sorted[OF assms(1), of now]
    by (simp add: check_block_def Let_def)
next
  case True
  then obtain t0 rest where e: "evict now window = t0 # rest"
    using assms(2) by (cases "evict now window") auto
  have w: "0 \<le> t0 + 60 - now" using evict_front[OF e] by simp
  have c: "check_block max_rpm now window = Inr (t0 # rest, t0 + 60 - now)"
    using True w by (simp add: check_block_def Let_def e max_def)
  have f: "filter (\<lambda>t. now - t \<le> 60) window = t0 # rest"
    using evict_sorted[OF assms(1), of now] e by simp
  have l: "max_rpm \<le> int (length (t0 # rest))" using True e by simp
  show ?thesis
    apply (rule exI[of _ "t0 # rest"], rule exI[of _ "t0 + 60 - now"])
    using c w l unfolding f by simp
qed


text \<open>
  Claim C2. The eviction and the wait are computed in a first block under the lock and
  the timestamp is appended in a second one; the lock is free in between and the window
  is not looked at again after the wait. With a budget of one request per minute:
  worker 1 runs both of its blocks between the two blocks of worker 0, and both are
  recorded; a worker that waited until 65 appends to the window as its first block left
  it, the expired timestamp \<open>0\<close> still in front, where an eviction at 65 empties it;
  and two workers that both found the window full at 10 and 11 both wake at 60 and both
  append, so that the window holds two admissions at 60.
\<close>

theorem admission_gap_without_recheck:
  "map_option request_timestamps
     (run 1 [Check 0 0, Check 1 1, Append 1 (3 / 2), Append 0 2] fresh) = Some [3 / 2, 2]
   \<and> map_option request_timestamps
       (run 1 [Check 0 0, Append 0 0, Check 0 10, Append 0 65] fresh) = Some [0, 65]
   \<and> evict 65 [0] = []
   \<and> map_option request_timestamps
       (run 1 [Check 0 0, Append 0 0, Check 0 10, Check 1 11, Append 0 60, Append 1 60] fresh) =
       Some [0, 60, 60]
   \<and> admissions_in 60 [0, 60, 60] = 2"
  by code_simp


text \<open>
  Claim C1 on two workers and a budget of one request per minute: both workers run
  their first block on the empty window before either appends, both are admitted, and two
  admissions fall into the 60 seconds that start at time 2.
\<close>

theorem concurrent_over_admission:
  "map_option admitted (run 1 [Check 0 0, Check 1 1, Append 0 2, Append 1 3] fresh) = Some [2, 3]
   \<and> admissions_in 2 [2, 3] = 2"
  by code_simp

section \<open>Properties of the result loop and of the next selection\<close>

lemma handle_result_listing:
  assumes "objects_only loads"
  shows "set (listdir (out_dir (handle_result loads dumps D (v, r) st))) =
           (if truthy r then insert (output_name v) (set (listdir (out_dir st)))
            else set (listdir (out_dir st)))"
proof (cases "truthy r")
  case True
  obtain content where "handle_outcome loads dumps v r st =
           st\<lparr>out_dir := AList.update (output_name v) content (out_dir st),
              trace := trace st @ [Wrote v (output_name v), Log_success v]\<rparr>"
    using handle_outcome_truthy[OF assms True] by blast
  then show ?thesis using True by (simp add: handle_result_def emit_def update_listdir)
next
  case False
  then show ?thesis
    using handle_outcome_falsy(1)[OF False] by (simp add: handle_result_def emit_def)
qed

lemma main_loop_listing:
  assumes "objects_only loads"
  shows "set (listdir (out_dir (main_loop loads dumps D batch st))) =
           set (listdir (out_dir st)) \<union> {output_name v | v r. (v, r) \<in> set batch \<and> truthy r}"
proof (induction batch arbitrary: st)
  case Nil
  show ?case by (simp add: main_loop_def)
next
  case (Cons item batch)
  obtain v r where item: "item = (v, r)" by (cases item)
  show ?case
    unfolding main_loop_Cons Cons.IH item handle_result_listing[OF assms] by auto
qed

lemma eligible_after:
  assumes "vf \<in> set (eligible names out)"
    and "set out' = set out \<union> {output_name v | v. v \<in> W}"
    and "\<forall>v \<in> W. is_video v"
  shows "vf \<in> set (eligible names out') \<longleftrightarrow> \<not> (\<exists>v \<in> W. fst (splitext v) = fst (splitext vf))"
proof -
  have js: "{f \<in> set out'. endswith f ''.json''} =
              {f \<in> set out. endswith f ''.json''} \<union> {output_name v | v. v \<in> W}"
    using assms(2) output_name_json by auto
  have b: "fst (splitext (output_name v)) = fst (splitext v)" if "v \<in> W" for v
    using splitext_output_name[of v] assms(3) that by simp
  have "(\<lambda>f. fst (splitext f)) ` {output_name v | v. v \<in> W} = (\<lambda>v. fst (splitext v)) ` W"
    using b by (auto simp: image_iff) (metis b)+
  then have im: "(\<lambda>f. fst (splitext f)) ` {f \<in> set out'. endswith f ''.json''} =
              (\<lambda>f. fst (splitext f)) ` {f \<in> set out. endswith f ''.json''} \<union>
              (\<lambda>v. fst (splitext v)) ` W"
    unfolding js image_Un by simp
  have "vf \<in> set names" "is_video vf"
    "fst (splitext vf) \<notin> (\<lambda>f. fst (splitext f)) ` {f \<in> set out. endswith f ''.json''}"
    using assms(1) unfolding eligible_set by auto
  then show ?thesis
    unfolding eligible_set im by (auto simp: image_iff)
qed


text \<open>
  Claim C10, as the code has it. In a run of the result loop over a batch of distinct
  videos, with a pacing delay that is not negative, the artifact of a video is written if
  and only if its worker returned a raw text that is neither \<open>None\<close> nor empty; it is
  then in the output directory. For an empty text, as for \<open>None\<close>, the failure is logged
  and handling the video leaves the output directory as it was. After the run the output
  directory holds what it held before and the artifacts of the videos with a text, and
  nothing else; so a video without a text that the selector would have taken before the
  run is taken again after it if and only if no video of the batch with a text has the
  same name without extension.
\<close>

theorem artifact_iff_text:
  assumes "objects_only loads" and "distinct (map fst batch)" and "(vf, r) \<in> set batch"
    and "\<forall>item \<in> set batch. is_video (fst item)" and "0 \<le> D"
  shows "(wrote vf (main_loop loads dumps D batch \<lparr>out_dir = out, trace = []\<rparr>) \<longleftrightarrow>
            (\<exists>raw md. r = Inr (Some raw, md) \<and> raw \<noteq> []))
       \<and> ((\<exists>raw md. r = Inr (Some raw, md) \<and> raw \<noteq> []) \<longrightarrow>
            output_name vf \<in>
              set (listdir (out_dir (main_loop loads dumps D batch \<lparr>out_dir = out, trace = []\<rparr>))))
       \<and> (\<forall>md. r = Inr (Some [], md) \<or> r = Inr (None, md) \<longrightarrow>
            Log_failed vf \<in> set (trace (main_loop loads dumps D batch \<lparr>out_dir = out, trace = []\<rparr>)))
       \<and> (\<forall>st. \<not> (\<exists>raw md. r = Inr (Some raw, md) \<and> raw \<noteq> []) \<longrightarrow>
            out_dir (handle_result loads dumps D (vf, r) st) = out_dir st)
       \<and> set (listdir (out_dir (main_loop loads dumps D batch \<lparr>out_dir = out, trace = []\<rparr>))) =
            set (listdir out) \<union>
            {output_name v | v raw md. (v, Inr (Some raw, md)) \<in> set batch \<and> raw \<noteq> []}
       \<and> (\<not> (\<exists>raw md. r = Inr (Some raw, md) \<and> raw \<noteq> []) \<longrightarrow>
          vf \<in> set (eligible names (listdir out)) \<longrightarrow>
            (vf \<in> set (eligible names
                         (listdir (out_dir (main_loop loads dumps D batch
                                              \<lparr>out_dir = out, trace = []\<rparr>)))) \<longleftrightarrow>
             \<not> (\<exists>v raw md. (v, Inr (Some raw, md)) \<in> set batch \<and> raw \<noteq> [] \<and>
                            fst (splitext v) = fst (splitext vf))))"
proof -
  let ?final = "main_loop loads dumps D batch \<lparr>out_dir = out, trace = []\<rparr>"
  let ?W = "{v. \<exists>raw md. (v, Inr (Some raw, md)) \<in> set batch \<and> raw \<noteq> []}"
  have uniq: "r' = r" if "(vf, r') \<in> set batch" for r'
    using that assms(2,3) by (meson eq_key_imp_eq_value)
  have "wrote vf ?final \<longleftrightarrow> (\<exists>r'. (vf, r') \<in> set batch \<and> truthy r')"
    unfolding wrote_def main_loop_wrote[OF assms(1)] by simp
  also have "\<dots> \<longleftrightarrow> truthy r" using uniq assms(3) by blast
  finally have a: "wrote vf ?final \<longleftrightarrow> truthy r" .
  have b: "output_name vf \<in> set (listdir (out_dir ?final))"
    if "truthy r" using main_loop_artifact[OF assms(1,3) that] .
  have c: "Log_failed vf \<in> set (trace ?final)"
    if "r = Inr (Some [], md) \<or> r = Inr (None, md)" for md
    by (rule main_loop_failed[OF assms(3)]) (use that in auto)
  have d: "out_dir (handle_result loads dumps D (vf, r) st) = out_dir st" if "\<not> truthy r" for st
    using handle_outcome_falsy(1)[OF that] by (simp add: handle_result_def emit_def)
  have w: "{output_name v | v r'. (v, r') \<in> set batch \<and> truthy r'} = {output_name v | v. v \<in> ?W}"
    unfolding truthy_iff by blast
  have e: "set (listdir (out_dir ?final)) = set (listdir out) \<union> {output_name v | v. v \<in> ?W}"
    using main_loop_listing[OF assms(1), of dumps D batch "\<lparr>out_dir = out, trace = []\<rparr>"]
    unfolding w by simp
  have vid: "\<forall>v \<in> ?W. is_video v" using assms(4) by fastforce
  have f: "vf \<in> set (eligible names (listdir (out_dir ?final))) \<longleftrightarrow>
             \<not> (\<exists>v \<in> ?W. fst (splitext v) = fst (splitext vf))"
    if "vf \<in> set (eligible names (listdir out))"
    using that e vid by (rule eligible_after)
  have e': "set (listdir (out_dir ?final)) =
            set (listdir out) \<union>
            {output_name v | v raw md. (v, Inr (Some raw, md)) \<in> set batch \<and> raw \<noteq> []}"
    unfolding e by blast
  have f': "vf \<in> set (eligible names (listdir (out_dir ?final))) \<longleftrightarrow>
             \<not> (\<exists>v raw md. (v, Inr (Some raw, md)) \<in> set batch \<and> raw \<noteq> [] \<and>
                            fst (splitext v) = fst (splitext vf))"
    if "vf \<in> set (eligible names (listdir out))"
    using f[OF that] by blast
  show ?thesis using a b c d e' f' unfolding truthy_iff by blast
qed

theorem artifact_iff_text_witness:
  "wrote ''a.mp4'' (main_loop sample_loads sample_dumps (1 / 2) sample_batch \<lparr>out_dir = [], trace = []\<rparr>)
   \<and> \<not> wrote ''b.mp4'' (main_loop sample_loads sample_dumps (1 / 2) sample_batch \<lparr>out_dir = [], trace = []\<rparr>)
   \<and> Log_failed ''b.mp4'' \<in>
        set (trace (main_loop sample_loads sample_dumps (1 / 2) sample_batch \<lparr>out_dir = [], trace = []\<rparr>))
   \<and> ''b.mp4'' \<in> set (eligible [''a.mp4'', ''b.mp4'', ''c.mp4'', ''d.mp4'']
                         (listdir (out_dir (main_loop sample_loads sample_dumps (1 / 2) sample_batch
                                              \<lparr>out_dir = [], trace = []\<rparr>))))"
proof -
  have d: "distinct (map fst sample_batch)" by code_simp
  have a: "(''a.mp4'', Inr (Some ''{\"a\": 1}'', [])) \<in> set sample_batch" by code_simp
  have b: "(''b.mp4'', Inr (Some [], [])) \<in> set sample_batch" by code_simp
  have v: "\<forall>item \<in> set sample_batch. is_video (fst item)" by code_simp
  have p: "(0 :: rat) \<le> 1 / 2" by simp
  note ta = artifact_iff_text[OF sample_loads_objects d a v p, where dumps = sample_dumps and out = "[]"]
  note tb = artifact_iff_text[OF sample_loads_objects d b v p, where dumps = sample_dumps and out = "[]"
      and names = "[''a.mp4'', ''b.mp4'', ''c.mp4'', ''d.mp4'']"]
  have ea: "\<exists>raw md. (Inr (Some ''{\"a\": 1}'', []) :: worker_result) = Inr (Some raw, md) \<and> raw \<noteq> []"
    by (intro exI conjI) (rule refl, simp)
  have eb: "\<not> (\<exists>raw md. (Inr (Some [], []) :: worker_result) = Inr (Some raw, md) \<and> raw \<noteq> [])"
    by simp
  have fb: "(Inr (Some [], []) :: worker_result) = Inr (Some [], []) \<or>
            (Inr (Some [], []) :: worker_result) = Inr (None, [])"
    by (rule disjI1) (rule refl)
  have before: "''b.mp4'' \<in> set (eligible [''a.mp4'', ''b.mp4'', ''c.mp4'', ''d.mp4''] (listdir []))"
    by code_simp
  have others: "\<forall>item \<in> set sample_batch.
                  truthy (snd item) \<longrightarrow> fst (splitext (fst item)) \<noteq> fst (splitext ''b.mp4'')"
    by code_simp
  have none: "\<not> (\<exists>v raw md. (v, Inr (Some raw, md)) \<in> set sample_batch \<and> raw \<noteq> [] \<and>
                            fst (splitext v) = fst (splitext ''b.mp4''))"
  proof
    assume "\<exists>v raw md. (v, Inr (Some raw, md)) \<in> set sample_batch \<and> raw \<noteq> [] \<and>
                            fst (splitext v) = fst (splitext ''b.mp4'')"
    then obtain v raw md where m: "(v, Inr (Some raw, md)) \<in> set sample_batch"
      and n: "raw \<noteq> []" and s: "fst (splitext v) = fst (splitext ''b.mp4'')" by blast
    have t: "truthy (snd (v, Inr (Some raw, md)))" using n by simp
    note k = mp[OF bspec[OF others m] t]
    from k have "fst (splitext v) \<noteq> fst (splitext ''b.mp4'')" unfolding fst_conv .
    from this s show False by (rule notE)
  qed
  have 1: "wrote ''a.mp4'' (main_loop sample_loads sample_dumps (1 / 2) sample_batch \<lparr>out_dir = [], trace = []\<rparr>)"
    using ta[THEN conjunct1] ea by (rule iffD2)
  have 2: "\<not> wrote ''b.mp4'' (main_loop sample_loads sample_dumps (1 / 2) sample_batch \<lparr>out_dir = [], trace = []\<rparr>)"
    using tb[THEN conjunct1] eb by (simp only: simp_thms)
  have 3: "Log_failed ''b.mp4'' \<in>
        set (trace (main_loop sample_loads sample_dumps (1 / 2) sample_batch \<lparr>out_dir = [], trace = []\<rparr>))"
    by (rule tb[THEN conjunct2, THEN conjunct2, THEN conjunct1, rule_format, OF fb])
  have 4: "''b.mp4'' \<in> set (eligible [''a.mp4'', ''b.mp4'', ''c.mp4'', ''d.mp4'']
                         (listdir (out_dir (main_loop sample_loads sample_dumps (1 / 2) sample_batch
                                              \<lparr>out_dir = [], trace = []\<rparr>))))"
    using tb[THEN conjunct2, THEN conjunct2, THEN conjunct2, THEN conjunct2, THEN conjunct2,
        rule_format, OF eb before] none by (rule iffD2)
  from 1 2 3 4 show ?thesis by (intro conjI)
qed


text \<open>
  The claim as stated fails: two videos of the input directory with the same name without
  extension share one artifact. In this run the worker returns the empty text for
  \<open>a.mp4\<close> and a caption for \<open>a.mov\<close>; the failure of \<open>a.mp4\<close> is logged and
  \<open>a.json\<close> is written for \<open>a.mov\<close>, so the next selection is empty and \<open>a.mp4\<close> is
  not taken again.
\<close>

theorem artifact_iff_text_counterexample:
  "get_video_files id (Some [''a.mp4'', ''a.mov'']) (Some (listdir [])) 5 False = [''a.mp4'', ''a.mov'']
   \<and> trace (dispatch id id sample_loads sample_dumps same_name_worker (1 / 2)
               (Some [''a.mp4'', ''a.mov'']) 5 False []) =
       [Log_failed ''a.mp4'', Slept (1 / 2),
        Wrote ''a.mov'' ''a.json'', Log_success ''a.mov'', Slept (1 / 2)]
   \<and> listdir (out_dir (dispatch id id sample_loads sample_dumps same_name_worker (1 / 2)
                          (Some [''a.mp4'', ''a.mov'']) 5 False [])) = [''a.json'']
   \<and> get_video_files id (Some [''a.mp4'', ''a.mov'']) (Some [''a.json'']) 5 False = []"
  by code_simp
end
